theory Spec2Isabelle
  imports Complex_Main
begin

section \<open>float64 values\<close>

text \<open>
  The numerics package computes on Go's \<^verbatim>\<open>float64\<close>. Its source produces and tests
  the special values itself (\<^verbatim>\<open>math.NaN()\<close>, \<^verbatim>\<open>math.IsNaN\<close>, \<^verbatim>\<open>math.IsInf\<close>) and divides
  without guarding the divisor, so the model keeps them: a \<open>float64\<close> is a finite number,
  one of the two infinities, or NaN, and the operations follow IEEE 754 on the special
  values (NaN is absorbing and unordered, \<open>\<infinity> - \<infinity>\<close>, \<open>0 \<times> \<infinity>\<close>, \<open>0 / 0\<close> and
  \<open>\<infinity> / \<infinity>\<close> are NaN, a non-zero number divided by zero is an infinity).

  On finite values the operations \<open>+\<close>, \<open>-\<close>, \<open>*\<close> and \<open>/\<close> of this section return the
  exact result, a real number. The processor rounds that result to the nearest binary64:
  an operation of the processor is the exact operation followed by the rounding
  \<open>rnd64\<close> of the next section. \<^verbatim>\<open>evalPoints\<close> and \<open>PolynomialFunction_Eval_binary64\<close>
  are written with the rounded operations. The other functions are written with the exact
  ones, and that is their idealisation: a finite value is an exact real there, with no
  rounding, no overflow to infinity and no underflow. The model has no negative zero (a
  division by zero takes the sign of the dividend alone). Go's \<^verbatim>\<open>int\<close> is modelled by
  the unbounded \<open>int\<close> and \<open>nat\<close>; the conversion of a float64 to an \<^verbatim>\<open>int\<close> checks
  the range of \<^verbatim>\<open>int\<close>.
\<close>

datatype float64 = Fin real | PInf | NInf | NaN

instantiation float64 :: "{plus, uminus, minus, times, inverse, abs, ord}"
begin

fun plus_float64 :: "float64 \<Rightarrow> float64 \<Rightarrow> float64" where
  "plus_float64 NaN _ = NaN"
| "plus_float64 _ NaN = NaN"
| "plus_float64 (Fin a) (Fin b) = Fin (a + b)"
| "plus_float64 PInf NInf = NaN"
| "plus_float64 NInf PInf = NaN"
| "plus_float64 PInf _ = PInf"
| "plus_float64 _ PInf = PInf"
| "plus_float64 NInf _ = NInf"
| "plus_float64 _ NInf = NInf"

fun uminus_float64 :: "float64 \<Rightarrow> float64" where
  "uminus_float64 (Fin a) = Fin (- a)"
| "uminus_float64 PInf = NInf"
| "uminus_float64 NInf = PInf"
| "uminus_float64 NaN = NaN"

definition minus_float64 :: "float64 \<Rightarrow> float64 \<Rightarrow> float64" where
  "minus_float64 u v = plus u (uminus (v::float64))"

fun times_float64 :: "float64 \<Rightarrow> float64 \<Rightarrow> float64" where
  "times_float64 NaN _ = NaN"
| "times_float64 _ NaN = NaN"
| "times_float64 (Fin a) (Fin b) = Fin (a * b)"
| "times_float64 (Fin a) PInf = (if a = 0 then NaN else if 0 < a then PInf else NInf)"
| "times_float64 (Fin a) NInf = (if a = 0 then NaN else if 0 < a then NInf else PInf)"
| "times_float64 PInf (Fin b) = (if b = 0 then NaN else if 0 < b then PInf else NInf)"
| "times_float64 NInf (Fin b) = (if b = 0 then NaN else if 0 < b then NInf else PInf)"
| "times_float64 PInf PInf = PInf"
| "times_float64 PInf NInf = NInf"
| "times_float64 NInf PInf = NInf"
| "times_float64 NInf NInf = PInf"

fun divide_float64 :: "float64 \<Rightarrow> float64 \<Rightarrow> float64" where
  "divide_float64 NaN _ = NaN"
| "divide_float64 _ NaN = NaN"
| "divide_float64 (Fin a) (Fin b) =
     (if b = 0 then (if a = 0 then NaN else if 0 < a then PInf else NInf) else Fin (a / b))"
| "divide_float64 (Fin a) PInf = Fin 0"
| "divide_float64 (Fin a) NInf = Fin 0"
| "divide_float64 PInf (Fin b) = (if 0 \<le> b then PInf else NInf)"
| "divide_float64 NInf (Fin b) = (if 0 \<le> b then NInf else PInf)"
| "divide_float64 PInf _ = NaN"
| "divide_float64 NInf _ = NaN"

definition inverse_float64 :: "float64 \<Rightarrow> float64" where
  "inverse_float64 u = divide (Fin 1) (u::float64)"

fun abs_float64 :: "float64 \<Rightarrow> float64" where
  "abs_float64 (Fin a) = Fin \<bar>a\<bar>"
| "abs_float64 PInf = PInf"
| "abs_float64 NInf = PInf"
| "abs_float64 NaN = NaN"

fun less_float64 :: "float64 \<Rightarrow> float64 \<Rightarrow> bool" where
  "less_float64 NaN _ = False"
| "less_float64 _ NaN = False"
| "less_float64 (Fin a) (Fin b) = (a < b)"
| "less_float64 _ NInf = False"
| "less_float64 PInf _ = False"
| "less_float64 NInf _ = True"
| "less_float64 _ PInf = True"

fun less_eq_float64 :: "float64 \<Rightarrow> float64 \<Rightarrow> bool" where
  "less_eq_float64 NaN _ = False"
| "less_eq_float64 _ NaN = False"
| "less_eq_float64 (Fin a) (Fin b) = (a \<le> b)"
| "less_eq_float64 NInf _ = True"
| "less_eq_float64 _ PInf = True"
| "less_eq_float64 _ NInf = False"
| "less_eq_float64 PInf _ = False"

instance ..

end

text \<open>\<^verbatim>\<open>float64(i)\<close> for an \<^verbatim>\<open>int\<close> \<open>i\<close>.\<close>

definition float64_of_int :: "int \<Rightarrow> float64" where
  "float64_of_int i = Fin (real_of_int i)"

section \<open>binary64 rounding\<close>

text \<open>
  A binary64 has a significand of 53 bits and an exponent from \<open>-1022\<close> to \<open>1023\<close>: the
  finite binary64 are the numbers \<open>n \<times> 2\<^sup>e\<^sup>-\<^sup>5\<^sup>2\<close> with an integer \<open>\<bar>n\<bar> < 2\<^sup>5\<^sup>3\<close> and
  \<open>-1022 \<le> e \<le> 1023\<close>. Go's arithmetic rounds to the nearest of them, and to the one with
  the even significand when two are equally near (IEEE 754, roundTiesToEven).

  \<open>round_half_even m\<close> is the integer nearest to \<open>m\<close>, the even one of two.
\<close>

definition round_half_even :: "real \<Rightarrow> int" where
  "round_half_even m =
     (let f = \<lfloor>m\<rfloor> in
      if m - of_int f < 1 / 2 then f
      else if 1 / 2 < m - of_int f then f + 1
      else if even f then f else f + 1)"

text \<open>
  The exponent of a number \<open>a \<noteq> 0\<close>: the \<open>e\<close> with \<open>2\<^sup>e \<le> \<bar>a\<bar> < 2\<^sup>e\<^sup>+\<^sup>1\<close>, but \<open>-1022\<close> for
  every smaller \<open>a\<close> (the subnormal numbers share the least exponent).
\<close>

definition binade :: "real \<Rightarrow> int" where
  "binade a = max (- 1022) \<lfloor>log 2 \<bar>a\<bar>\<rfloor>"

text \<open>
  \<open>round64 a\<close>, the binary64 of the real \<open>a\<close>: the nearest multiple of the spacing
  \<open>2\<^sup>e\<^sup>-\<^sup>5\<^sup>2\<close> at the exponent \<open>e\<close> of \<open>a\<close>; a magnitude that rounds to \<open>2\<^sup>1\<^sup>0\<^sup>2\<^sup>4\<close> or more
  overflows to the infinity of its sign.
\<close>

definition round64 :: "real \<Rightarrow> float64" where
  "round64 a =
     (if a = 0 then Fin 0
      else let q = 2 powi (binade a - 52);
               r = of_int (round_half_even (a / q)) * q
           in if 2 ^ 1024 \<le> r then PInf else if r \<le> - (2 ^ 1024) then NInf else Fin r)"

text \<open>The rounding of the exact result of an operation; the special values stay.\<close>

fun rnd64 :: "float64 \<Rightarrow> float64" where
  "rnd64 (Fin a) = round64 a"
| "rnd64 u = u"

section \<open>What the implementation decides\<close>

text \<open>
  The Go specification leaves to the implementation: the width of \<^verbatim>\<open>int\<close>, 32 or 64
  bits; the result of \<^verbatim>\<open>int(f)\<close> for a float64 \<^verbatim>\<open>f\<close> whose integer part is no \<^verbatim>\<open>int\<close> (a NaN,
  an infinity, a number out of range); and whether \<^verbatim>\<open>x*y + z\<close> is fused into one operation
  that rounds once. The run-time system decides the largest capacity \<open>n\<close> for which
  \<^verbatim>\<open>make([]*Point, 0, n)\<close> does not panic.
\<close>

record implementation =
  int_64 :: bool
  int_of_unrepresentable :: "float64 \<Rightarrow> int"
  max_cap :: int
  fuses :: bool

section \<open>Points\<close>

text \<open>
  \<^verbatim>\<open>type Point struct { x, y float64 }\<close> with its accessors \<^verbatim>\<open>X()\<close> and \<^verbatim>\<open>Y()\<close>. A point
  is never written after \<^verbatim>\<open>NewPoint\<close>, so the pointers \<^verbatim>\<open>*Point\<close> of the source are
  modelled by the values they point to.
\<close>

datatype Point = NewPoint (X: float64) (Y: float64)

text \<open>
  \<^verbatim>\<open>type Points struct { points []*Point }\<close>: the ordered sequence of its points. The
  package only ever stores the result of \<^verbatim>\<open>NewPoint\<close> in it, so no element is nil.
\<close>

type_synonym Points = "Point list"

datatype error = IndexOutOfRange | NilDereference | XOutOfRange | MakeSliceCapOutOfRange

text \<open>
  \<^verbatim>\<open>Points.Map\<close>: \<^verbatim>\<open>f\<close> returns a \<^verbatim>\<open>*Point\<close>, nil or not; the loop appends \<^verbatim>\<open>point\<close>, the
  element of the receiver, and drops \<^verbatim>\<open>np\<close>.
\<close>

fun Map_loop :: "(Point \<Rightarrow> Point option) \<Rightarrow> Point list \<Rightarrow> Point list \<Rightarrow> Point list" where
  "Map_loop f [] acc = acc"
| "Map_loop f (point # rest) acc =
     (case f point of
        None \<Rightarrow> Map_loop f rest acc
      | Some np \<Rightarrow> Map_loop f rest (acc @ [point]))"

definition Map :: "Points \<Rightarrow> (Point \<Rightarrow> Point option) \<Rightarrow> Points" where
  "Map ps f = Map_loop f ps []"

text \<open>
  \<^verbatim>\<open>Len\<close>, \<^verbatim>\<open>XAt\<close>, \<^verbatim>\<open>YAt\<close>, \<^verbatim>\<open>XDifference\<close>, \<^verbatim>\<open>YDifference\<close>: an index outside the slice is a
  run-time panic. Indices are natural numbers: the package never passes a
  negative one.
\<close>

definition Len :: "Points \<Rightarrow> nat" where
  "Len ps = length ps"

definition XAt :: "Points \<Rightarrow> nat \<Rightarrow> error + float64" where
  "XAt ps idx = (if idx < length ps then Inr (X (ps ! idx)) else Inl IndexOutOfRange)"

definition YAt :: "Points \<Rightarrow> nat \<Rightarrow> error + float64" where
  "YAt ps idx = (if idx < length ps then Inr (Y (ps ! idx)) else Inl IndexOutOfRange)"

definition XDifference :: "Points \<Rightarrow> nat \<Rightarrow> nat \<Rightarrow> error + float64" where
  "XDifference ps idxA idxB =
     (if idxA < length ps \<and> idxB < length ps then Inr (X (ps ! idxA) - X (ps ! idxB))
      else Inl IndexOutOfRange)"

definition YDifference :: "Points \<Rightarrow> nat \<Rightarrow> nat \<Rightarrow> error + float64" where
  "YDifference ps idxA idxB =
     (if idxA < length ps \<and> idxB < length ps then Inr (Y (ps ! idxA) - Y (ps ! idxB))
      else Inl IndexOutOfRange)"

text \<open>
  \<^verbatim>\<open>XInRange\<close> reads \<^verbatim>\<open>ps.points[0]\<close> twice, then scans \<^verbatim>\<open>ps.points[1:]\<close> keeping the
  least and the greatest abscissa seen, with the comparisons of the source.
\<close>

fun XInRange_loop :: "Point list \<Rightarrow> float64 \<Rightarrow> float64 \<Rightarrow> float64 \<times> float64" where
  "XInRange_loop [] minX maxX = (minX, maxX)"
| "XInRange_loop (p # rest) minX maxX =
     XInRange_loop rest (if X p < minX then X p else minX) (if X p > maxX then X p else maxX)"

definition XInRange :: "Points \<Rightarrow> float64 \<Rightarrow> error + bool" where
  "XInRange ps x =
     (case ps of
        [] \<Rightarrow> Inl IndexOutOfRange
      | p0 # rest \<Rightarrow>
          (case XInRange_loop rest (X p0) (X p0) of
             (minX, maxX) \<Rightarrow> Inr (minX \<le> x \<and> x \<le> maxX)))"

text \<open>
  \<^verbatim>\<open>sort.Search(n, f)\<close> of the Go standard library, which \<^verbatim>\<open>SearchNextIndex\<close> calls: the
  binary search \<^verbatim>\<open>i, j := 0, n; for i < j { h := i + (j-i)/2; if !f(h) { i = h + 1 } else
  { j = h } }; return i\<close>. The predicate may panic, and then so does the search.
\<close>

function Search_loop :: "(nat \<Rightarrow> error + bool) \<Rightarrow> nat \<Rightarrow> nat \<Rightarrow> error + nat" where
  "Search_loop f i j =
     (if i < j then
        (case f (i + (j - i) div 2) of
           Inl e \<Rightarrow> Inl e
         | Inr t \<Rightarrow>
             if \<not> t then Search_loop f (i + (j - i) div 2 + 1) j
             else Search_loop f i (i + (j - i) div 2))
      else Inr i)"
  by pat_completeness auto
termination
  by (relation "measure (\<lambda>(f, i, j). j - i)") auto

declare Search_loop.simps [simp del]

definition Search :: "nat \<Rightarrow> (nat \<Rightarrow> error + bool) \<Rightarrow> error + nat" where
  "Search n f = Search_loop f 0 n"

text \<open>\<^verbatim>\<open>SearchNextIndex\<close>: the closure \<^verbatim>\<open>sf\<close> indexes \<^verbatim>\<open>ps.points\<close>.\<close>

definition SearchNextIndex :: "Points \<Rightarrow> float64 \<Rightarrow> error + nat" where
  "SearchNextIndex ps x =
     Search (length ps)
       (\<lambda>i. if i < length ps then Inr (x < X (ps ! i)) else Inl IndexOutOfRange)"

section \<open>Slices of float64 and the store\<close>

text \<open>
  A \<^verbatim>\<open>[]float64\<close> is a reference to a backing array: \<^verbatim>\<open>NewPolynomialFunction\<close> keeps the
  slice it is given, it does not copy the numbers. The store is the list of the backing
  arrays allocated so far and a slice is the address of its array (the package never
  reslices a \<^verbatim>\<open>[]float64\<close>, so a slice always spans its whole array). The nil slice and
  an address never allocated have no elements.
\<close>

type_synonym addr = nat

type_synonym heap = "float64 list list"

definition slice_at :: "heap \<Rightarrow> addr \<Rightarrow> float64 list" where
  "slice_at h a = (if a < length h then h ! a else [])"

text \<open>\<^verbatim>\<open>make([]float64, n)\<close>: a fresh array of \<open>n\<close> zeros.\<close>

definition make_float64s :: "heap \<Rightarrow> nat \<Rightarrow> addr \<times> heap" where
  "make_float64s h n = (length h, h @ [replicate n (Fin 0)])"

text \<open>\<^verbatim>\<open>s[k] = v\<close> for a slice \<open>s\<close> at address \<open>a\<close>; the caller has checked \<open>k\<close>.\<close>

definition store :: "heap \<Rightarrow> addr \<Rightarrow> nat \<Rightarrow> float64 \<Rightarrow> heap" where
  "store h a k v = h[a := (h ! a)[k := v]]"

section \<open>PolynomialFunction\<close>

text \<open>\<^verbatim>\<open>type PolynomialFunction struct { coefficients []float64 }\<close>.\<close>

datatype PolynomialFunction = PolynomialFunction (coefficients: addr)

text \<open>\<^verbatim>\<open>NewPolynomialFunction\<close> returns nil for fewer than one coefficient.\<close>

definition NewPolynomialFunction :: "heap \<Rightarrow> addr \<Rightarrow> PolynomialFunction option" where
  "NewPolynomialFunction h cs =
     (if length (slice_at h cs) < 1 then None else Some (PolynomialFunction cs))"

text \<open>
  \<^verbatim>\<open>PolynomialFunction.Eval\<close>: \<^verbatim>\<open>result := coefficients[n-1]\<close>, an index panic when
  \<open>n = 0\<close>, then \<^verbatim>\<open>for i := n - 2; i >= 0; i-- { result = x*result + coefficients[i] }\<close>.
  The loop function counts \<open>i + 1\<close> down to zero.
\<close>

fun PolynomialFunction_Eval_loop ::
  "float64 list \<Rightarrow> float64 \<Rightarrow> nat \<Rightarrow> float64 \<Rightarrow> error + float64" where
  "PolynomialFunction_Eval_loop cs x 0 result = Inr result"
| "PolynomialFunction_Eval_loop cs x (Suc i) result =
     (if i < length cs then PolynomialFunction_Eval_loop cs x i (x * result + cs ! i)
      else Inl IndexOutOfRange)"

definition PolynomialFunction_Eval ::
  "heap \<Rightarrow> PolynomialFunction \<Rightarrow> float64 \<Rightarrow> error + float64" where
  "PolynomialFunction_Eval h pf x =
     (let cs = slice_at h (coefficients pf); n = length cs in
      if n = 0 then Inl IndexOutOfRange
      else PolynomialFunction_Eval_loop cs x (n - 1) (cs ! (n - 1)))"

text \<open>
  The same method in binary64. The statement \<^verbatim>\<open>result = x*result + coefficients[i]\<close>
  rounds the product and then the sum, or, on an implementation that fuses the two, the
  exact \<^verbatim>\<open>x*result + coefficients[i]\<close> once.
\<close>

definition mul_add :: "implementation \<Rightarrow> float64 \<Rightarrow> float64 \<Rightarrow> float64 \<Rightarrow> float64" where
  "mul_add impl x y z = (if fuses impl then rnd64 (x * y + z) else rnd64 (rnd64 (x * y) + z))"

fun PolynomialFunction_Eval_binary64_loop ::
  "implementation \<Rightarrow> float64 list \<Rightarrow> float64 \<Rightarrow> nat \<Rightarrow> float64 \<Rightarrow> error + float64" where
  "PolynomialFunction_Eval_binary64_loop impl cs x 0 result = Inr result"
| "PolynomialFunction_Eval_binary64_loop impl cs x (Suc i) result =
     (if i < length cs
      then PolynomialFunction_Eval_binary64_loop impl cs x i (mul_add impl x result (cs ! i))
      else Inl IndexOutOfRange)"

definition PolynomialFunction_Eval_binary64 ::
  "implementation \<Rightarrow> heap \<Rightarrow> PolynomialFunction \<Rightarrow> float64 \<Rightarrow> error + float64" where
  "PolynomialFunction_Eval_binary64 impl h pf x =
     (let cs = slice_at h (coefficients pf); n = length cs in
      if n = 0 then Inl IndexOutOfRange
      else PolynomialFunction_Eval_binary64_loop impl cs x (n - 1) (cs ! (n - 1)))"

section \<open>CubicSplineFunction\<close>

text \<open>
  \<^verbatim>\<open>type CubicSplineFunction struct { polynomials []*PolynomialFunction; points *Points }\<close>.
  An element of \<^verbatim>\<open>polynomials\<close> is a pointer and may be nil. \<^verbatim>\<open>points\<close> is the set the
  function was built from, as it stands when the function is evaluated.
\<close>

record CubicSplineFunction =
  polynomials :: "PolynomialFunction option list"
  points :: Points

text \<open>
  The loops of \<^verbatim>\<open>NewCubicSplineFunction\<close>. The arrays \<^verbatim>\<open>differences\<close>, \<^verbatim>\<open>mu\<close>, \<^verbatim>\<open>z\<close>, \<^verbatim>\<open>b\<close>,
  \<^verbatim>\<open>c\<close> and \<^verbatim>\<open>d\<close> never leave the constructor, so they are lists passed from one
  iteration to the next. Each iteration first checks every index it reads or writes, as
  the run-time does (an index out of range is a panic), and then computes the
  assignments of the source in their order. The calls \<^verbatim>\<open>points.XDifference(i, j)\<close>,
  \<^verbatim>\<open>points.YDifference(i, j)\<close> and \<^verbatim>\<open>points.YAt(i)\<close> are written out as the difference or
  the ordinate they return, their index checks being part of the iteration's.

  \<^verbatim>\<open>for i := 0; i < intervals; i++ { differences[i] = points.XDifference(i+1, i) }\<close>
\<close>

function differences_loop ::
  "Points \<Rightarrow> nat \<Rightarrow> nat \<Rightarrow> float64 list \<Rightarrow> error + float64 list" where
  "differences_loop ps intervals i differences =
     (if i < intervals then
        (if i + 1 < length ps \<and> i < length differences then
           differences_loop ps intervals (i + 1)
             (differences[i := X (ps ! (i + 1)) - X (ps ! i)])
         else Inl IndexOutOfRange)
      else Inr differences)"
  by pat_completeness auto
termination
  by (relation "measure (\<lambda>(ps, intervals, i, differences). intervals - i)") auto

declare differences_loop.simps [simp del]

text \<open>
  The forward elimination, \<^verbatim>\<open>for i := 1; i < intervals; i++\<close>, assigning \<^verbatim>\<open>g\<close>, \<^verbatim>\<open>mu[i]\<close>
  and \<^verbatim>\<open>z[i]\<close>.
\<close>

function elimination_loop ::
  "Points \<Rightarrow> float64 list \<Rightarrow> nat \<Rightarrow> nat \<Rightarrow> float64 list \<Rightarrow> float64 list \<Rightarrow>
   error + float64 list \<times> float64 list" where
  "elimination_loop ps differences intervals i mu z =
     (if i < intervals then
        (if 1 \<le> i \<and> i + 1 < length ps \<and> i < length differences \<and> i < length mu \<and>
            i < length z then
           (let g = Fin 2 * (X (ps ! (i + 1)) - X (ps ! (i - 1)))
                      - differences ! (i - 1) * mu ! (i - 1)
            in elimination_loop ps differences intervals (i + 1)
                 (mu[i := differences ! i / g])
                 (z[i := (Fin 3 * (Y (ps ! (i + 1)) * differences ! (i - 1)
                                   - Y (ps ! i) * (X (ps ! (i + 1)) - X (ps ! (i - 1)))
                                   + Y (ps ! (i - 1)) * differences ! i)
                            / (differences ! (i - 1) * differences ! i)
                          - differences ! (i - 1) * z ! (i - 1)) / g]))
         else Inl IndexOutOfRange)
      else Inr (mu, z))"
  by pat_completeness auto
termination
  by (relation "measure (\<lambda>(ps, differences, intervals, i, mu, z). intervals - i)") auto

declare elimination_loop.simps [simp del]

text \<open>
  The back substitution, \<^verbatim>\<open>for i := intervals - 1; i >= 0; i--\<close>, assigning \<^verbatim>\<open>c[i]\<close>,
  \<^verbatim>\<open>b[i]\<close> and \<^verbatim>\<open>d[i]\<close>; the loop function counts \<open>i + 1\<close> down to zero.
\<close>

fun substitution_loop ::
  "Points \<Rightarrow> float64 list \<Rightarrow> float64 list \<Rightarrow> float64 list \<Rightarrow> nat \<Rightarrow>
   float64 list \<Rightarrow> float64 list \<Rightarrow> float64 list \<Rightarrow>
   error + float64 list \<times> float64 list \<times> float64 list" where
  "substitution_loop ps differences mu z 0 b c d = Inr (b, c, d)"
| "substitution_loop ps differences mu z (Suc i) b c d =
     (if i + 1 < length ps \<and> i < length differences \<and> i < length mu \<and> i < length z \<and>
         i < length b \<and> i + 1 < length c \<and> i < length d then
        (let c' = c[i := z ! i - mu ! i * c ! (i + 1)];
             b' = b[i := (Y (ps ! (i + 1)) - Y (ps ! i)) / differences ! i
                          - differences ! i * (c' ! (i + 1) + Fin 2 * c' ! i) / Fin 3];
             d' = d[i := (c' ! (i + 1) - c' ! i) / (Fin 3 * differences ! i)]
         in substitution_loop ps differences mu z i b' c' d')
      else Inl IndexOutOfRange)"

text \<open>
  Building the polynomials. \<^verbatim>\<open>coefficients := make([]float64, 4)\<close> is allocated once,
  before the loop, at the address \<open>cs\<close>; each iteration overwrites its four elements and
  hands the same slice to \<^verbatim>\<open>NewPolynomialFunction\<close>.
\<close>

function polynomials_loop ::
  "heap \<Rightarrow> Points \<Rightarrow> float64 list \<Rightarrow> float64 list \<Rightarrow> float64 list \<Rightarrow> addr \<Rightarrow> nat \<Rightarrow> nat \<Rightarrow>
   PolynomialFunction option list \<Rightarrow> error + PolynomialFunction option list \<times> heap" where
  "polynomials_loop h ps b c d cs intervals i polys =
     (if i < intervals then
        (if i < length ps \<and> i < length b \<and> i < length c \<and> i < length d \<and>
            3 < length (slice_at h cs) \<and> i < length polys then
           (let h0 = store h cs 0 (Y (ps ! i));
                h1 = store h0 cs 1 (b ! i);
                h2 = store h1 cs 2 (c ! i);
                h3 = store h2 cs 3 (d ! i)
            in polynomials_loop h3 ps b c d cs intervals (i + 1)
                 (polys[i := NewPolynomialFunction h3 cs]))
         else Inl IndexOutOfRange)
      else Inr (polys, h))"
  by pat_completeness auto
termination
  by (relation "measure (\<lambda>(h, ps, b, c, d, cs, intervals, i, polys). intervals - i)") auto

declare polynomials_loop.simps [simp del]

text \<open>
  \<^verbatim>\<open>NewCubicSplineFunction\<close>, for a point set that is not the nil pointer: nil for fewer
  than three points; otherwise the four loops on the arrays \<^verbatim>\<open>make\<close> has filled with
  zeros. The result is the function (or nil) and the store after the call.
\<close>

definition NewCubicSplineFunction ::
  "heap \<Rightarrow> Points \<Rightarrow> error + CubicSplineFunction option \<times> heap" where
  "NewCubicSplineFunction h ps =
     (if Len ps < 3 then Inr (None, h)
      else
        (let intervals = Len ps - 1 in
         case differences_loop ps intervals 0 (replicate intervals (Fin 0)) of
           Inl e \<Rightarrow> Inl e
         | Inr differences \<Rightarrow>
         (case elimination_loop ps differences intervals 1
                 (replicate intervals (Fin 0)) (replicate (Len ps) (Fin 0)) of
            Inl e \<Rightarrow> Inl e
          | Inr (mu, z) \<Rightarrow>
          (case substitution_loop ps differences mu z intervals
                  (replicate intervals (Fin 0)) (replicate (Len ps) (Fin 0))
                  (replicate intervals (Fin 0)) of
             Inl e \<Rightarrow> Inl e
           | Inr (b, c, d) \<Rightarrow>
           (case make_float64s h 4 of
              (cs, h') \<Rightarrow>
              (case polynomials_loop h' ps b c d cs intervals 0 (replicate intervals None) of
                 Inl e \<Rightarrow> Inl e
               | Inr (polys, h'') \<Rightarrow>
                   Inr (Some \<lparr>polynomials = polys, points = ps\<rparr>, h'')))))))"

text \<open>
  \<^verbatim>\<open>CubicSplineFunction.Eval\<close>: the panic \<^verbatim>\<open>"X out of range!"\<close> unless \<^verbatim>\<open>XInRange\<close>; then
  the index \<^verbatim>\<open>SearchNextIndex\<close> returns, lowered to \<^verbatim>\<open>len(csf.polynomials) - 1\<close> when it is
  not below \<^verbatim>\<open>len(csf.polynomials)\<close>, selects both the polynomial and the abscissa that is
  subtracted from \<open>x\<close>.
\<close>

definition CubicSplineFunction_Eval ::
  "heap \<Rightarrow> CubicSplineFunction \<Rightarrow> float64 \<Rightarrow> error + float64" where
  "CubicSplineFunction_Eval h csf x =
     (case XInRange (points csf) x of
        Inl e \<Rightarrow> Inl e
      | Inr inside \<Rightarrow>
          if \<not> inside then Inl XOutOfRange
          else
            (case SearchNextIndex (points csf) x of
               Inl e \<Rightarrow> Inl e
             | Inr found \<Rightarrow>
                 (let idx = (if int found \<ge> int (length (polynomials csf))
                             then int (length (polynomials csf)) - 1 else int found)
                  in if idx < 0 \<or> int (length (polynomials csf)) \<le> idx then Inl IndexOutOfRange
                     else
                       (case XAt (points csf) (nat idx) of
                          Inl e \<Rightarrow> Inl e
                        | Inr x0 \<Rightarrow>
                            (case polynomials csf ! nat idx of
                               None \<Rightarrow> Inl NilDereference
                             | Some pf \<Rightarrow> PolynomialFunction_Eval h pf (x - x0))))))"

section \<open>LeastSquaresFunction\<close>

text \<open>
  \<^verbatim>\<open>type LeastSquaresFunction struct { sumX, sumXX float64; sumY, sumYY float64;
  sumXY float64; xBar, yBar float64; count int }\<close>.
\<close>

record LeastSquaresFunction =
  sumX :: float64
  sumXX :: float64
  sumY :: float64
  sumYY :: float64
  sumXY :: float64
  xBar :: float64
  yBar :: float64
  count :: int

text \<open>\<^verbatim>\<open>new(LeastSquaresFunction)\<close>: every field zero.\<close>

definition new_LeastSquaresFunction :: LeastSquaresFunction where
  "new_LeastSquaresFunction =
     \<lparr>sumX = Fin 0, sumXX = Fin 0, sumY = Fin 0, sumYY = Fin 0, sumXY = Fin 0,
      xBar = Fin 0, yBar = Fin 0, count = 0\<rparr>"

text \<open>
  \<^verbatim>\<open>LeastSquaresFunction.AppendPoint\<close>: the first point sets the means; a later one
  updates the centred sums and the means from \<^verbatim>\<open>dx\<close>, \<^verbatim>\<open>dy\<close> and the count before it.
  Then \<^verbatim>\<open>sumX\<close>, \<^verbatim>\<open>sumY\<close> and \<^verbatim>\<open>count\<close> grow. The value returned is the function after
  the call.
\<close>

definition LeastSquaresFunction_AppendPoint ::
  "LeastSquaresFunction \<Rightarrow> float64 \<Rightarrow> float64 \<Rightarrow> LeastSquaresFunction" where
  "LeastSquaresFunction_AppendPoint lsf x y =
     (let point = NewPoint x y;
          lsf' =
            (if count lsf = 0 then lsf\<lparr>xBar := X point, yBar := Y point\<rparr>
             else
               (let dx = X point - xBar lsf;
                    dy = Y point - yBar lsf
                in lsf\<lparr>sumXX := sumXX lsf
                            + dx * dx * float64_of_int (count lsf) / float64_of_int (count lsf + 1),
                        sumYY := sumYY lsf
                            + dy * dy * float64_of_int (count lsf) / float64_of_int (count lsf + 1),
                        sumXY := sumXY lsf
                            + dx * dy * float64_of_int (count lsf) / float64_of_int (count lsf + 1),
                        xBar := xBar lsf + dx / float64_of_int (count lsf + 1),
                        yBar := yBar lsf + dy / float64_of_int (count lsf + 1)\<rparr>))
      in lsf'\<lparr>sumX := sumX lsf' + X point, sumY := sumY lsf' + Y point,
              count := count lsf' + 1\<rparr>)"

text \<open>
  \<^verbatim>\<open>Points.Do\<close> calls \<^verbatim>\<open>f\<close> on each point in order; the state \<^verbatim>\<open>f\<close> writes is passed
  along. \<^verbatim>\<open>AppendPoints\<close> is \<^verbatim>\<open>Do\<close> with \<^verbatim>\<open>AppendPoint\<close>.
\<close>

fun Do :: "Points \<Rightarrow> (Point \<Rightarrow> 's \<Rightarrow> 's) \<Rightarrow> 's \<Rightarrow> 's" where
  "Do [] f s = s"
| "Do (point # rest) f s = Do rest f (f point s)"

definition LeastSquaresFunction_AppendPoints ::
  "LeastSquaresFunction \<Rightarrow> Points \<Rightarrow> LeastSquaresFunction" where
  "LeastSquaresFunction_AppendPoints lsf ps =
     Do ps (\<lambda>point l. LeastSquaresFunction_AppendPoint l (X point) (Y point)) lsf"

text \<open>\<^verbatim>\<open>NewLeastSquaresFunction(points)\<close>; \<open>None\<close> is the nil pointer.\<close>

definition NewLeastSquaresFunction :: "Points option \<Rightarrow> LeastSquaresFunction" where
  "NewLeastSquaresFunction pts =
     (case pts of
        None \<Rightarrow> new_LeastSquaresFunction
      | Some ps \<Rightarrow> LeastSquaresFunction_AppendPoints new_LeastSquaresFunction ps)"

text \<open>
  \<^verbatim>\<open>math.SmallestNonzeroFloat64\<close>, the least positive (subnormal) float64, is \<open>2\<^sup>-\<^sup>1\<^sup>0\<^sup>7\<^sup>4\<close>;
  ten times it is a float64 again.
\<close>

definition SmallestNonzeroFloat64 :: real where
  "SmallestNonzeroFloat64 = 1 / 2 ^ 1074"

text \<open>\<^verbatim>\<open>slope\<close>, \<^verbatim>\<open>intercept\<close> and \<^verbatim>\<open>LeastSquaresFunction.Eval\<close>; none of them can panic.\<close>

definition slope :: "LeastSquaresFunction \<Rightarrow> float64" where
  "slope lsf =
     (if count lsf < 2 then NaN
      else if \<bar>sumXX lsf\<bar> < Fin (10 * SmallestNonzeroFloat64) then NaN
      else sumXY lsf / sumXX lsf)"

definition intercept :: "LeastSquaresFunction \<Rightarrow> float64 \<Rightarrow> float64" where
  "intercept lsf s = (sumY lsf - s * sumX lsf) / float64_of_int (count lsf)"

definition LeastSquaresFunction_Eval :: "LeastSquaresFunction \<Rightarrow> float64 \<Rightarrow> float64" where
  "LeastSquaresFunction_Eval lsf x = (let s = slope lsf in intercept lsf s + s * x)"

section \<open>evalPoints\<close>

text \<open>
  \<^verbatim>\<open>NewPoints(size)\<close> is \<^verbatim>\<open>make([]*Point, 0, size)\<close>: the empty set, with room for \<^verbatim>\<open>size\<close>
  points. The capacity of a slice is not part of the model, but \<^verbatim>\<open>make\<close> panics for a
  negative capacity and for one beyond the limit of the implementation.
  \<^verbatim>\<open>Points.AppendPoint\<close> appends \<^verbatim>\<open>NewPoint(x, y)\<close>; the memory of the model is unbounded,
  so appending never fails.
\<close>

definition NewPoints :: "implementation \<Rightarrow> int \<Rightarrow> error + Points" where
  "NewPoints impl sz =
     (if sz < 0 \<or> max_cap impl < sz then Inl MakeSliceCapOutOfRange else Inr [])"

definition AppendPoint :: "Points \<Rightarrow> float64 \<Rightarrow> float64 \<Rightarrow> Points" where
  "AppendPoint ps x y = ps @ [NewPoint x y]"

text \<open>
  The conversion \<^verbatim>\<open>int(f)\<close> drops the fraction of a finite \<open>f\<close>. When the integer left is
  no \<^verbatim>\<open>int\<close>, and for a NaN and the infinities, the result is the implementation's.
\<close>

definition int_of_float64 :: "implementation \<Rightarrow> float64 \<Rightarrow> int" where
  "int_of_float64 impl u =
     (case u of
        Fin a \<Rightarrow>
          (let t = (if 0 \<le> a then \<lfloor>a\<rfloor> else \<lceil>a\<rceil>);
               bound = (if int_64 impl then 2 ^ 63 else 2 ^ 31)
           in if - bound \<le> t \<and> t < bound then t else int_of_unrepresentable impl u)
      | _ \<Rightarrow> int_of_unrepresentable impl u)"

text \<open>
  A \<^verbatim>\<open>Function\<close> enters \<^verbatim>\<open>evalPoints\<close> through its method \<^verbatim>\<open>Eval\<close> alone, which returns
  a float64 or panics: \<open>PolynomialFunction_Eval_binary64 impl h pf\<close> for a polynomial
  function.
\<close>

type_synonym Function = "float64 \<Rightarrow> error + float64"

text \<open>
  \<^verbatim>\<open>interval := (toX - fromX) / float64(count)\<close>: the conversion, the difference and the
  quotient are rounded.
\<close>

definition evalPoints_interval :: "float64 \<Rightarrow> float64 \<Rightarrow> int \<Rightarrow> float64" where
  "evalPoints_interval fromX toX cnt =
     rnd64 (rnd64 (toX - fromX) / rnd64 (float64_of_int cnt))"

text \<open>
  \<^verbatim>\<open>for x := fromX; x < toX; x += interval { y := f.Eval(x); points.AppendPoint(x, y) }\<close>,
  where \<^verbatim>\<open>x += interval\<close> rounds the sum. Nothing bounds the number of iterations (with a
  step of zero, a negative one, or one that the rounding of \<^verbatim>\<open>x + interval\<close> absorbs, \<open>x\<close>
  never reaches \<^verbatim>\<open>toX\<close>), so the loop is a partial function: \<open>None\<close> is a loop that
  never ends.
\<close>

partial_function (option) evalPoints_loop ::
  "Function \<Rightarrow> float64 \<Rightarrow> float64 \<Rightarrow> float64 \<Rightarrow> Points \<Rightarrow> (error + Points) option" where
  "evalPoints_loop f toX interval x pts =
     (if x < toX then
        (case f x of
           Inl e \<Rightarrow> Some (Inl e)
         | Inr y \<Rightarrow>
             evalPoints_loop f toX interval (rnd64 (x + interval)) (AppendPoint pts x y))
      else Some (Inr pts))"

text \<open>\<^verbatim>\<open>evalPoints(f, fromX, toX, count)\<close> on the implementation \<open>impl\<close>.\<close>

definition evalPoints ::
  "implementation \<Rightarrow> Function \<Rightarrow> float64 \<Rightarrow> float64 \<Rightarrow> int \<Rightarrow> (error + Points) option" where
  "evalPoints impl f fromX toX cnt =
     (let interval = evalPoints_interval fromX toX cnt in
      case NewPoints impl (int_of_float64 impl interval) of
        Inl e \<Rightarrow> Some (Inl e)
      | Inr pts \<Rightarrow> evalPoints_loop f toX interval fromX pts)"

section \<open>Notions the properties are stated with\<close>

text \<open>A point sequence sorted ascending by x, with the comparison of float64.\<close>

fun sorted_by_X :: "Point list \<Rightarrow> bool" where
  "sorted_by_X [] = True"
| "sorted_by_X [p] = True"
| "sorted_by_X (p # q # rest) = (X p \<le> X q \<and> sorted_by_X (q # rest))"

text \<open>The least and the greatest abscissa of a point set.\<close>

definition least_X :: "Points \<Rightarrow> float64 \<Rightarrow> bool" where
  "least_X ps m = (m \<in> X ` set ps \<and> (\<forall>p\<in>set ps. m \<le> X p))"

definition greatest_X :: "Points \<Rightarrow> float64 \<Rightarrow> bool" where
  "greatest_X ps m = (m \<in> X ` set ps \<and> (\<forall>p\<in>set ps. X p \<le> m))"

text \<open>
  The points \<open>(x, f.Eval(x))\<close> for the abscissas \<open>xs\<close>, in their order; the first
  panic of \<open>f\<close> is the result.
\<close>

fun collect_points :: "Function \<Rightarrow> float64 list \<Rightarrow> error + Points" where
  "collect_points f [] = Inr []"
| "collect_points f (x # xs) =
     (case f x of
        Inl e \<Rightarrow> Inl e
      | Inr y \<Rightarrow>
          (case collect_points f xs of
             Inl e \<Rightarrow> Inl e
           | Inr ps \<Rightarrow> Inr (NewPoint x y # ps)))"

text \<open>
  The abscissas \<^verbatim>\<open>evalPoints\<close> steps through: \<open>fromX\<close>, then each time the rounded sum of
  the last one and the step.
\<close>

primrec abscissa :: "float64 \<Rightarrow> float64 \<Rightarrow> nat \<Rightarrow> float64" where
  "abscissa fromX interval 0 = fromX"
| "abscissa fromX interval (Suc k) = rnd64 (abscissa fromX interval k + interval)"

text \<open>
  The implementation of Go's compiler on amd64: an \<^verbatim>\<open>int\<close> of 64 bits, the least \<^verbatim>\<open>int\<close>
  for a conversion that has no result, no fused operation, and an allocation limit of
  \<open>2\<^sup>4\<^sup>8\<close> bytes, which are \<open>2\<^sup>4\<^sup>5\<close> pointers.
\<close>

definition amd64 :: implementation where
  "amd64 = \<lparr>int_64 = True, int_of_unrepresentable = (\<lambda>u. - (2 ^ 63)),
            max_cap = 2 ^ 45, fuses = False\<rparr>"

text \<open>
  The knots \<open>(0,0), (1,1), (2,0), (3,1)\<close>, and what \<^verbatim>\<open>NewCubicSplineFunction\<close> returns
  for them in an empty store: three polynomials that hold the same slice, and the store
  with the one array of that slice.
\<close>

definition knots :: Points where
  "knots = [NewPoint (Fin 0) (Fin 0), NewPoint (Fin 1) (Fin 1),
            NewPoint (Fin 2) (Fin 0), NewPoint (Fin 3) (Fin 1)]"

definition knots_spline :: CubicSplineFunction where
  "knots_spline =
     \<lparr>polynomials = [Some (PolynomialFunction 0), Some (PolynomialFunction 0),
                     Some (PolynomialFunction 0)],
      points = knots\<rparr>"

definition knots_heap :: heap where
  "knots_heap = [[Fin 0, Fin (- (1 / 3)), Fin 2, Fin (- (2 / 3))]]"

text \<open>
  The invariant of a least squares function fed only points of abscissa \<open>a\<close>: the sum
  \<open>sumXX\<close> is zero with the mean at \<open>a\<close>, or it is NaN (when \<open>a\<close> is not finite).
\<close>

definition same_x_inv :: "float64 \<Rightarrow> LeastSquaresFunction \<Rightarrow> bool" where
  "same_x_inv a lsf =
     (0 \<le> count lsf \<and>
      (sumXX lsf = NaN \<or> (sumXX lsf = Fin 0 \<and> (0 < count lsf \<longrightarrow> xBar lsf = a))))"

text \<open>The least squares function of the two points \<open>(0, 0)\<close> and \<open>(1, NaN)\<close>.\<close>

definition NaN_ordinate :: LeastSquaresFunction where
  "NaN_ordinate =
     NewLeastSquaresFunction (Some [NewPoint (Fin 0) (Fin 0), NewPoint (Fin 1) NaN])"

text \<open>The least squares function of four points on the line \<open>y = 2x + 1\<close>.\<close>

definition on_line :: LeastSquaresFunction where
  "on_line =
     NewLeastSquaresFunction
       (Some [NewPoint (Fin 0) (Fin 1), NewPoint (Fin 1) (Fin 3),
              NewPoint (Fin 2) (Fin 5), NewPoint (Fin 3) (Fin 7)])"

section \<open>The order of float64\<close>

lemma float64_le_trans: "(a::float64) \<le> b \<Longrightarrow> b \<le> c \<Longrightarrow> a \<le> c"
  by (cases a; cases b; cases c) simp_all

lemma float64_less_le_trans: "(a::float64) < b \<Longrightarrow> b \<le> c \<Longrightarrow> a < c"
  by (cases a; cases b; cases c) simp_all

lemma float64_le_refl: "a \<noteq> NaN \<Longrightarrow> (a::float64) \<le> a"
  by (cases a) simp_all

lemma float64_le_antisym: "(a::float64) \<le> b \<Longrightarrow> b \<le> a \<Longrightarrow> a = b"
  by (cases a; cases b) simp_all

lemma float64_not_less: "a \<noteq> NaN \<Longrightarrow> b \<noteq> NaN \<Longrightarrow> (\<not> (a::float64) < b) = (b \<le> a)"
  by (cases a; cases b) auto

lemma float64_less_imp_le: "(a::float64) < b \<Longrightarrow> a \<le> b"
  by (cases a; cases b) simp_all

lemma NaN_plus [simp]: "u + NaN = NaN" "NaN + u = NaN"
  by (cases u; simp)+

lemma NaN_times [simp]: "u * NaN = NaN" "NaN * u = NaN"
  by (cases u; simp)+

lemma NaN_divide [simp]: "u / NaN = NaN" "NaN / u = NaN"
  by (cases u; simp)+

lemma float64_minus_self: "u - u = (case u of Fin a \<Rightarrow> Fin 0 | _ \<Rightarrow> NaN)"
  by (cases u) (simp_all add: minus_float64_def)

section \<open>Rounding to binary64\<close>

text \<open>
  The exponent of \<open>a\<close> is \<open>e\<close> when \<open>\<bar>a\<bar>\<close> lies in \<open>[2\<^sup>e, 2\<^sup>e\<^sup>+\<^sup>1)\<close>, or below \<open>2\<^sup>-\<^sup>1\<^sup>0\<^sup>2\<^sup>1\<close> for
  \<open>e = -1022\<close>.
\<close>

lemma binade_eq:
  assumes "a \<noteq> 0" "- 1022 \<le> e" "\<bar>a\<bar> < 2 powi (e + 1)" "e = - 1022 \<or> 2 powi e \<le> \<bar>a\<bar>"
  shows "binade a = e"
proof -
  have pos: "0 < \<bar>a\<bar>" using assms(1) by simp
  have p: "(2::real) powr real_of_int k = 2 powi k" for k
    by (rule powr_real_of_int') simp_all
  have up: "\<lfloor>log 2 \<bar>a\<bar>\<rfloor> \<le> e"
  proof -
    have "log 2 \<bar>a\<bar> < real_of_int (e + 1)"
      using assms(3) pos p [of "e + 1"] by (simp add: log_less_iff)
    then show ?thesis by (simp add: floor_le_iff)
  qed
  show ?thesis
  proof (cases "2 powi e \<le> \<bar>a\<bar>")
    case True
    then have "real_of_int e \<le> log 2 \<bar>a\<bar>"
      using pos p [of e] by (simp add: le_log_iff)
    then have "e \<le> \<lfloor>log 2 \<bar>a\<bar>\<rfloor>" by (simp add: le_floor_iff)
    with up assms(2) show ?thesis by (simp add: binade_def)
  next
    case False
    with assms(4) have "e = - 1022" by simp
    with up show ?thesis by (simp add: binade_def)
  qed
qed

lemma binade_le:
  assumes "a \<noteq> 0" "- 1022 \<le> e" "\<bar>a\<bar> < 2 powi (e + 1)"
  shows "binade a \<le> e"
proof -
  have pos: "0 < \<bar>a\<bar>" using assms(1) by simp
  have p: "(2::real) powr real_of_int k = 2 powi k" for k
    by (rule powr_real_of_int') simp_all
  have "log 2 \<bar>a\<bar> < real_of_int (e + 1)"
    using assms(3) pos p [of "e + 1"] by (simp add: log_less_iff)
  then have "\<lfloor>log 2 \<bar>a\<bar>\<rfloor> \<le> e" by (simp add: floor_le_iff)
  with assms(2) show ?thesis by (simp add: binade_def)
qed

lemma binade_cases:
  assumes "a \<noteq> 0"
  shows "binade a = - 1022 \<or> 2 powi binade a \<le> \<bar>a\<bar>"
proof (cases "- 1022 \<le> \<lfloor>log 2 \<bar>a\<bar>\<rfloor>")
  case True
  have pos: "0 < \<bar>a\<bar>" using assms by simp
  have "real_of_int \<lfloor>log 2 \<bar>a\<bar>\<rfloor> \<le> log 2 \<bar>a\<bar>" by simp
  then have "2 powr real_of_int \<lfloor>log 2 \<bar>a\<bar>\<rfloor> \<le> \<bar>a\<bar>"
    using pos by (subst powr_le_iff) simp_all
  moreover have "(2::real) powr real_of_int k = 2 powi k" for k
    by (rule powr_real_of_int') simp_all
  ultimately have "2 powi \<lfloor>log 2 \<bar>a\<bar>\<rfloor> \<le> \<bar>a\<bar>" by simp
  with True show ?thesis by (simp add: binade_def max_def)
next
  case False
  then show ?thesis by (simp add: binade_def)
qed

text \<open>The nearest integer, and the even one of the two nearest.\<close>

lemma round_half_even_near: "\<bar>m - of_int n\<bar> < 1 / 2 \<Longrightarrow> round_half_even m = n"
proof -
  assume a: "\<bar>m - of_int n\<bar> < 1 / 2"
  show ?thesis
  proof (cases "of_int n \<le> m")
    case True
    with a have "\<lfloor>m\<rfloor> = n" by (simp add: floor_eq_iff)
    with a True show ?thesis by (simp add: round_half_even_def)
  next
    case False
    with a have f: "\<lfloor>m\<rfloor> = n - 1" by (simp add: floor_eq_iff)
    with a False show ?thesis by (simp add: round_half_even_def)
  qed
qed

lemma round_half_even_of_int [simp]: "round_half_even (of_int n) = n"
  by (rule round_half_even_near) simp

lemma round_half_even_tie:
  "m = of_int n + 1 / 2 \<Longrightarrow> round_half_even m = (if even n then n else n + 1)"
proof -
  assume m: "m = of_int n + 1 / 2"
  then have "\<lfloor>m\<rfloor> = n" by (simp add: floor_eq_iff)
  with m show ?thesis by (simp add: round_half_even_def)
qed

lemma round_half_even_error: "\<bar>real_of_int (round_half_even m) - m\<bar> \<le> 1 / 2"
proof -
  have "real_of_int \<lfloor>m\<rfloor> \<le> m" "m < real_of_int \<lfloor>m\<rfloor> + 1" by linarith+
  then show ?thesis by (simp add: round_half_even_def Let_def)
qed

text \<open>
  How a rounding is computed: at the exponent \<open>e\<close> of \<open>a\<close>, \<open>round64 a\<close> is \<open>n \<times> 2\<^sup>e\<^sup>-\<^sup>5\<^sup>2\<close> for
  the integer \<open>n\<close> that \<open>a / 2\<^sup>e\<^sup>-\<^sup>5\<^sup>2\<close> rounds to.
\<close>

lemma round64_eq:
  assumes "a \<noteq> 0" "- 1022 \<le> e" "\<bar>a\<bar> < 2 powi (e + 1)" "e = - 1022 \<or> 2 powi e \<le> \<bar>a\<bar>"
    and "round_half_even (a / 2 powi (e - 52)) = n"
    and "\<bar>of_int n * 2 powi (e - 52)\<bar> < (2::real) ^ 1024"
  shows "round64 a = Fin (of_int n * 2 powi (e - 52))"
proof -
  have "binade a = e" using assms(1-4) by (rule binade_eq)
  with assms(1,5,6) show ?thesis
    by (simp add: round64_def Let_def abs_less_iff not_le)
qed

text \<open>
  A binary64 rounds to itself: every \<open>n \<times> 2\<^sup>k\<close> with \<open>\<bar>n\<bar> \<le> 2\<^sup>5\<^sup>3\<close>, \<open>k \<ge> -1074\<close> and a
  magnitude below \<open>2\<^sup>1\<^sup>0\<^sup>2\<^sup>4\<close>, and so every integer up to \<open>2\<^sup>5\<^sup>3\<close>.
\<close>

lemma round64_representable:
  assumes "\<bar>n\<bar> < 2 ^ 53" "- 1074 \<le> k" "\<bar>real_of_int n * 2 powi k\<bar> < 2 ^ 1024"
  shows "round64 (of_int n * 2 powi k) = Fin (of_int n * 2 powi k)"
proof (cases "n = 0")
  case True
  then show ?thesis by (simp add: round64_def)
next
  case False
  define a where "a = real_of_int n * 2 powi k"
  have a0: "a \<noteq> 0" using False by (simp add: a_def)
  have "\<bar>a\<bar> = real_of_int \<bar>n\<bar> * 2 powi k" by (simp add: a_def abs_mult)
  also have "\<dots> < 2 ^ 53 * 2 powi k"
  proof (rule mult_strict_right_mono)
    from assms(1) have "real_of_int \<bar>n\<bar> < real_of_int (2 ^ 53)" by (simp only: of_int_less_iff)
    then show "real_of_int \<bar>n\<bar> < 2 ^ 53" by simp
  qed simp
  also have "\<dots> = 2 powi (k + 52 + 1)"
    by (simp add: power_int_add)
  finally have "\<bar>a\<bar> < 2 powi (k + 52 + 1)" .
  with a0 assms(2) have "binade a \<le> k + 52" by (intro binade_le) simp_all
  then obtain d where d: "k - (binade a - 52) = int d"
    by (metis diff_ge_0_iff_ge diff_le_eq nonneg_int_cases)
  have q: "a / 2 powi (binade a - 52) = real_of_int (n * 2 ^ d)"
  proof -
    have "a / 2 powi (binade a - 52) = real_of_int n * 2 powi (k - (binade a - 52))"
      by (simp add: a_def power_int_diff)
    then show ?thesis by (simp add: d)
  qed
  have "real_of_int (n * 2 ^ d) * 2 powi (binade a - 52) = a"
    using q by (simp add: field_simps)
  with a0 assms(3) show ?thesis
    unfolding a_def [symmetric]
    by (simp add: round64_def Let_def q abs_less_iff not_le del: of_int_mult of_int_power)
qed

lemma round64_representable_le:
  assumes "\<bar>n\<bar> \<le> 2 ^ 53" "- 1074 \<le> k" "\<bar>real_of_int n * 2 powi k\<bar> < 2 ^ 1024"
  shows "round64 (of_int n * 2 powi k) = Fin (of_int n * 2 powi k)"
proof (cases "\<bar>n\<bar> < 2 ^ 53")
  case True
  with assms show ?thesis by (intro round64_representable)
next
  case False
  with assms(1) have "\<bar>n\<bar> = 2 ^ 53" by simp
  then consider "n = 2 ^ 53" | "n = - (2 ^ 53)" by (auto simp: abs_if split: if_splits)
  then show ?thesis
  proof cases
    case 1
    have e: "real_of_int n * 2 powi k = real_of_int 1 * 2 powi (k + 53)"
      by (simp add: 1 power_int_add)
    show ?thesis unfolding e
      using assms(2,3) unfolding e by (intro round64_representable) simp_all
  next
    case 2
    have e: "real_of_int n * 2 powi k = real_of_int (- 1) * 2 powi (k + 53)"
      by (simp add: 2 power_int_add)
    show ?thesis unfolding e
      using assms(2,3) unfolding e by (intro round64_representable) simp_all
  qed
qed

lemma round64_of_int:
  "\<bar>n\<bar> \<le> 2 ^ 53 \<Longrightarrow> round64 (of_int n) = Fin (of_int n)"
proof -
  assume n: "\<bar>n\<bar> \<le> 2 ^ 53"
  then have "real_of_int \<bar>n\<bar> \<le> real_of_int (2 ^ 53)" by (simp only: of_int_le_iff)
  then have "\<bar>real_of_int n\<bar> \<le> 2 ^ 53" by simp
  moreover have "(2::real) ^ 53 < 2 ^ 1024" by simp
  ultimately have "\<bar>real_of_int n * 2 powi 0\<bar> < 2 ^ 1024" by simp
  with n round64_representable_le [of n 0] show ?thesis by simp
qed

text \<open>
  The error of a rounding is at most half the spacing: at most \<open>2\<^sup>-\<^sup>5\<^sup>3 \<bar>a\<bar>\<close> where \<open>\<bar>a\<bar>\<close> is
  \<open>2\<^sup>-\<^sup>1\<^sup>0\<^sup>2\<^sup>2\<close> or more, and \<open>2\<^sup>-\<^sup>1\<^sup>0\<^sup>7\<^sup>5\<close> below.
\<close>

lemma spacing_error:
  assumes "a \<noteq> 0"
  shows "\<bar>real_of_int (round_half_even (a / 2 powi (binade a - 52))) * 2 powi (binade a - 52) - a\<bar>
           \<le> \<bar>a\<bar> / 2 ^ 53 + 1 / 2 ^ 1075"
proof -
  define q :: real where "q = 2 powi (binade a - 52)"
  define n where "n = round_half_even (a / q)"
  define r where "r = real_of_int n * q"
  have q: "0 < q" by (simp add: q_def)
  have "\<bar>real_of_int n - a / q\<bar> \<le> 1 / 2" unfolding n_def by (rule round_half_even_error)
  then have "\<bar>real_of_int n - a / q\<bar> * q \<le> 1 / 2 * q"
    using q by (intro mult_right_mono) simp_all
  moreover have "\<bar>real_of_int n - a / q\<bar> * q = \<bar>r - a\<bar>"
  proof -
    have "\<bar>real_of_int n - a / q\<bar> * q = \<bar>(real_of_int n - a / q) * q\<bar>"
      using q by (simp add: abs_mult)
    also have "(real_of_int n - a / q) * q = r - a" using q by (simp add: r_def field_simps)
    finally show ?thesis .
  qed
  ultimately have half: "\<bar>r - a\<bar> \<le> q / 2" by simp
  define eta :: real where "eta = 1 / 2 ^ 1075"
  have "\<bar>r - a\<bar> \<le> \<bar>a\<bar> / 2 ^ 53 + eta"
  proof -
    from binade_cases [OF assms] show ?thesis
    proof
      assume "binade a = - 1022"
      then have "q = 2 powi (- 1074)" by (simp add: q_def)
      also have "\<dots> = 1 / 2 ^ 1074" by (simp only: power_int_minus_divide power_int_numeral)
      finally have "q / 2 = eta" by (simp add: eta_def)
      with half have "\<bar>r - a\<bar> \<le> eta" by simp
      moreover have "0 \<le> \<bar>a\<bar> / 2 ^ 53" by simp
      ultimately show ?thesis by linarith
    next
      assume "2 powi binade a \<le> \<bar>a\<bar>"
      moreover have "q = 2 powi binade a / 2 ^ 52" by (simp add: q_def power_int_diff)
      ultimately have "q / 2 \<le> \<bar>a\<bar> / 2 ^ 53" by simp
      moreover have "0 \<le> eta" by (simp add: eta_def)
      ultimately show ?thesis using half by linarith
    qed
  qed
  then show ?thesis unfolding eta_def r_def n_def q_def .
qed

lemma round64_error:
  assumes "round64 a = Fin r"
  shows "\<bar>r - a\<bar> \<le> \<bar>a\<bar> / 2 ^ 53 + 1 / 2 ^ 1075"
proof (cases "a = 0")
  case True
  with assms show ?thesis by (simp add: round64_def)
next
  case False
  from assms False
  have "r = real_of_int (round_half_even (a / 2 powi (binade a - 52))) * 2 powi (binade a - 52)"
    by (simp add: round64_def Let_def split: if_splits)
  with spacing_error [OF False] show ?thesis by simp
qed

lemma round64_overflow:
  "round64 a = PInf \<Longrightarrow> 2 ^ 1023 < a"
  "round64 a = NInf \<Longrightarrow> a < - (2 ^ 1023)"
proof -
  define r where
    "r = real_of_int (round_half_even (a / 2 powi (binade a - 52))) * 2 powi (binade a - 52)"
  define big :: real where "big = 2 ^ 1023"
  define eta :: real where "eta = 1 / 2 ^ 1075"
  have big: "4 \<le> big" "eta \<le> 1" "0 \<le> eta" by (simp_all add: big_def eta_def)
  have err: "\<bar>r - a\<bar> \<le> \<bar>a\<bar> / 2 ^ 53 + eta" if "a \<noteq> 0"
    using spacing_error [OF that] by (simp add: r_def eta_def)
  have small: "\<bar>a\<bar> / 2 ^ 53 \<le> \<bar>a\<bar> / 2" by (simp add: field_simps)
  {
    assume "round64 a = PInf"
    then have a: "a \<noteq> 0" and "2 ^ 1024 \<le> r"
      by (auto simp: round64_def Let_def r_def split: if_splits)
    then have r: "2 * big \<le> r" by (simp add: big_def)
    from err [OF a] small r big show "2 ^ 1023 < a" unfolding big_def [symmetric] by linarith
  }
  {
    assume "round64 a = NInf"
    then have a: "a \<noteq> 0" and "r \<le> - (2 ^ 1024)"
      by (auto simp: round64_def Let_def r_def split: if_splits)
    then have r: "r \<le> - (2 * big)" by (simp add: big_def)
    from err [OF a] small r big show "a < - (2 ^ 1023)" unfolding big_def [symmetric] by linarith
  }
qed

lemma round64_not_NaN: "round64 a \<noteq> NaN"
  by (simp add: round64_def Let_def)

section \<open>Points.Map keeps the original points\<close>

lemma Map_loop_filter: "Map_loop f ps acc = acc @ filter (\<lambda>p. f p \<noteq> None) ps"
  by (induction ps arbitrary: acc) (auto split: option.splits)

text \<open>
  C6: \<open>ps.Map(f)\<close> is the sequence of exactly those points \<open>p\<close> of \<open>ps\<close>, in their
  order and unchanged, for which \<open>f p\<close> is present (not nil); what \<open>f\<close> returned is
  not part of the result.
\<close>

theorem Map_keeps_original_points:
  "Map ps f = filter (\<lambda>p. f p \<noteq> None) ps"
  by (simp add: Map_def Map_loop_filter)

section \<open>PolynomialFunction.Eval is the power sum\<close>

lemma PolynomialFunction_Eval_loop_total:
  "k \<le> length cs \<Longrightarrow> \<exists>v. PolynomialFunction_Eval_loop cs x k r = Inr v"
  by (induction k arbitrary: r) simp_all

lemma PolynomialFunction_Eval_total:
  "slice_at h (coefficients pf) \<noteq> [] \<Longrightarrow> \<exists>v. PolynomialFunction_Eval h pf x = Inr v"
  using PolynomialFunction_Eval_loop_total
    [of "length (slice_at h (coefficients pf)) - 1" "slice_at h (coefficients pf)"]
  by (simp add: PolynomialFunction_Eval_def Let_def)

text \<open>
  Horner's loop after \<open>k\<close> more steps, on finite coefficients and a finite \<open>x\<close>: the
  running result is multiplied by \<open>x\<^sup>k\<close> and the \<open>k\<close> lowest terms are added.
\<close>

lemma PolynomialFunction_Eval_loop_finite:
  "k \<le> length c \<Longrightarrow>
   PolynomialFunction_Eval_loop (map Fin c) (Fin x) k (Fin r) =
     Inr (Fin (r * x ^ k + (\<Sum>i<k. c ! i * x ^ i)))"
proof (induction k arbitrary: r)
  case 0
  then show ?case by simp
next
  case (Suc k)
  then show ?case by (simp add: algebra_simps)
qed

text \<open>The binary64 evaluation of a constructed polynomial function does not panic either.\<close>

lemma PolynomialFunction_Eval_binary64_loop_total:
  "k \<le> length cs \<Longrightarrow> \<exists>v. PolynomialFunction_Eval_binary64_loop impl cs x k r = Inr v"
  by (induction k arbitrary: r) simp_all

lemma PolynomialFunction_Eval_binary64_total:
  "slice_at h (coefficients pf) \<noteq> [] \<Longrightarrow>
   \<exists>v. PolynomialFunction_Eval_binary64 impl h pf x = Inr v"
  using PolynomialFunction_Eval_binary64_loop_total
    [of "length (slice_at h (coefficients pf)) - 1" "slice_at h (coefficients pf)"]
  by (simp add: PolynomialFunction_Eval_binary64_def Let_def)

text \<open>
  A running result that is no number stays none: an overflow in Horner's loop shows in
  what \<open>Eval\<close> returns.
\<close>

lemma mul_add_not_finite:
  "\<forall>a. r \<noteq> Fin a \<Longrightarrow> mul_add impl (Fin x) r (Fin c) \<noteq> Fin b"
  by (cases r) (simp_all add: mul_add_def)

lemma PolynomialFunction_Eval_binary64_loop_not_finite:
  "\<forall>a. r \<noteq> Fin a \<Longrightarrow>
   PolynomialFunction_Eval_binary64_loop impl (map Fin c) (Fin x) k r \<noteq> Inr (Fin v)"
proof (induction k arbitrary: r)
  case 0
  then show ?case by simp
next
  case (Suc k)
  from Suc.prems have "\<forall>a. mul_add impl (Fin x) r (Fin (c ! k)) \<noteq> Fin a"
    using mul_add_not_finite [of r impl x "c ! k"] by blast
  from Suc.IH [OF this] show ?case by simp
qed

text \<open>
  The error of one step \<^verbatim>\<open>x*result + coefficients[i]\<close>, whichever way it is rounded, with
  \<open>u = 2\<^sup>-\<^sup>5\<^sup>3\<close>: at most \<open>((1 + u)\<^sup>2 - 1) \<bar>x r\<bar> + u \<bar>c\<bar> + 3 \<times> 2\<^sup>-\<^sup>1\<^sup>0\<^sup>7\<^sup>5\<close>.
\<close>

lemma mul_add_error:
  assumes "mul_add impl (Fin x) (Fin r) (Fin c) = Fin r'"
  shows "\<bar>r' - (x * r + c)\<bar> \<le>
           ((1 + 1 / 2 ^ 53)\<^sup>2 - 1) * \<bar>x * r\<bar> + 1 / 2 ^ 53 * \<bar>c\<bar> + 3 * (1 / 2 ^ 1075)"
proof -
  define u :: real where "u = 1 / 2 ^ 53"
  define eta :: real where "eta = 1 / 2 ^ 1075"
  define t where "t = \<bar>x * r\<bar>"
  have u: "0 \<le> u" "u \<le> 1" and eta: "0 \<le> eta" and t: "0 \<le> t"
    by (simp_all add: u_def eta_def t_def)
  have err: "\<bar>b - a\<bar> \<le> u * \<bar>a\<bar> + eta" if "round64 a = Fin b" for a b
    using round64_error [OF that] by (simp add: u_def eta_def)
  have w: "((1 + u)\<^sup>2 - 1) * t = 2 * (u * t) + u * (u * t)"
    by (simp add: power2_eq_square algebra_simps)
  have ut: "0 \<le> u * t" using u t by simp
  have uut: "0 \<le> u * (u * t)" using u ut by simp
  have ueta: "u * eta \<le> eta" using u eta by (simp add: mult_left_le_one_le)
  have "\<bar>r' - (x * r + c)\<bar> \<le> 2 * (u * t) + u * (u * t) + u * \<bar>c\<bar> + 3 * eta"
  proof (cases "fuses impl")
    case True
    with assms have "round64 (x * r + c) = Fin r'" by (simp add: mul_add_def)
    from err [OF this] have "\<bar>r' - (x * r + c)\<bar> \<le> u * \<bar>x * r + c\<bar> + eta" .
    moreover have "u * \<bar>x * r + c\<bar> \<le> u * (t + \<bar>c\<bar>)"
      using u unfolding t_def by (intro mult_left_mono abs_triangle_ineq)
    moreover have "u * (t + \<bar>c\<bar>) = u * t + u * \<bar>c\<bar>" by (simp add: algebra_simps)
    ultimately show ?thesis using ut uut eta by linarith
  next
    case False
    with assms have "rnd64 (round64 (x * r) + Fin c) = Fin r'" by (simp add: mul_add_def)
    then obtain p where p: "round64 (x * r) = Fin p" and s: "round64 (p + c) = Fin r'"
      by (cases "round64 (x * r)") simp_all
    from err [OF p] have ep: "\<bar>p - x * r\<bar> \<le> u * t + eta" by (simp add: t_def)
    from err [OF s] have es: "\<bar>r' - (p + c)\<bar> \<le> u * \<bar>p + c\<bar> + eta" .
    have "\<bar>p + c\<bar> \<le> t + (u * t + eta) + \<bar>c\<bar>" using ep unfolding t_def by linarith
    then have "u * \<bar>p + c\<bar> \<le> u * (t + (u * t + eta) + \<bar>c\<bar>)"
      using u by (intro mult_left_mono)
    also have "\<dots> = u * t + u * (u * t) + u * eta + u * \<bar>c\<bar>" by (simp add: algebra_simps)
    finally have "u * \<bar>p + c\<bar> \<le> u * t + u * (u * t) + u * eta + u * \<bar>c\<bar>" .
    moreover have "\<bar>r' - (x * r + c)\<bar> \<le> \<bar>r' - (p + c)\<bar> + \<bar>p - x * r\<bar>" by linarith
    ultimately show ?thesis using es ep ueta by linarith
  qed
  then have "\<bar>r' - (x * r + c)\<bar> \<le> ((1 + u)\<^sup>2 - 1) * t + u * \<bar>c\<bar> + 3 * eta"
    by (simp only: w)
  then show ?thesis unfolding u_def eta_def t_def .
qed

text \<open>
  \<open>(1 + u)\<^sup>m \<le> 1 / (1 - m u)\<close>, and so \<open>(1 + 2\<^sup>-\<^sup>5\<^sup>3)\<^sup>2\<^sup>j \<le> 1 + 2\<^sup>-\<^sup>3\<^sup>1\<close> up to \<open>j = 2\<^sup>2\<^sup>0\<close>.
\<close>

lemma power_one_plus_le:
  fixes u :: real
  assumes "0 \<le> u"
  shows "real m * u < 1 \<Longrightarrow> (1 + u) ^ m \<le> 1 / (1 - real m * u)"
proof (induction m)
  case 0
  then show ?case by simp
next
  case (Suc m)
  have "real m * u \<le> real (Suc m) * u" using assms by (intro mult_right_mono) simp_all
  with Suc.prems have mu: "real m * u < 1" by linarith
  have d1: "0 < 1 - real m * u" using mu by simp
  have d2: "0 < 1 - real (Suc m) * u" using Suc.prems by simp
  have "(1 + u) ^ Suc m = (1 + u) * (1 + u) ^ m" by simp
  also have "\<dots> \<le> (1 + u) * (1 / (1 - real m * u))"
    using Suc.IH [OF mu] assms by (intro mult_left_mono) simp_all
  also have "\<dots> \<le> 1 / (1 - real (Suc m) * u)"
  proof -
    have "(1 + u) * (1 - real (Suc m) * u) \<le> 1 - real m * u"
    proof -
      have "(1 + u) * (1 - real (Suc m) * u) = 1 - real m * u - real (Suc m) * (u * u)"
        by (simp add: algebra_simps)
      moreover have "0 \<le> real (Suc m) * (u * u)" by simp
      ultimately show ?thesis by linarith
    qed
    then show ?thesis using d1 d2 by (simp add: field_simps)
  qed
  finally show ?case .
qed

lemma growth_bound:
  assumes "j \<le> 2 ^ 20"
  shows "(1 + 1 / 2 ^ 53 :: real) ^ (2 * j) \<le> 1 + 1 / 2 ^ 31"
proof -
  define u :: real where "u = 1 / 2 ^ 53"
  have u: "0 \<le> u" by (simp add: u_def)
  define e where "e = real (2 * j) * u"
  have "real (2 * j) \<le> 2 ^ 21" using assms by simp
  then have "real (2 * j) * u \<le> 2 ^ 21 * u" using u by (intro mult_right_mono)
  also have "2 ^ 21 * u = 1 / 2 ^ 32" by (simp add: u_def)
  finally have mu: "e \<le> 1 / 2 ^ 32" unfolding e_def .
  have small: "(1 / 2 ^ 32 :: real) < 1" by simp
  with mu have lt: "e < 1" by linarith
  have "(1 + u) ^ (2 * j) \<le> 1 / (1 - e)"
    unfolding e_def using u lt [unfolded e_def] by (rule power_one_plus_le)
  also have "\<dots> \<le> 1 / (1 - 1 / 2 ^ 32)"
  proof (rule divide_left_mono)
    show "1 - 1 / 2 ^ 32 \<le> 1 - e" using mu by linarith
    show "0 < (1 - e) * (1 - 1 / 2 ^ 32)" using lt small by (intro mult_pos_pos) linarith+
  qed simp
  also have "\<dots> \<le> 1 + 1 / 2 ^ 31" by simp
  finally show ?thesis unfolding u_def .
qed

text \<open>
  The running error of Horner's loop. Let \<open>G\<^sub>j = (1 + 2\<^sup>-\<^sup>5\<^sup>3)\<^sup>2\<^sup>j\<close> and \<open>M = max(1, \<bar>x\<bar>)\<close>. When
  after \<open>j\<close> steps the result \<open>r\<close> is within \<open>(G\<^sub>j - 1) A + 3 \<times> 2\<^sup>-\<^sup>1\<^sup>0\<^sup>7\<^sup>5 j G\<^sub>j M\<^sup>j\<close> of the exact value
  \<open>P\<close> of these steps, where \<open>A\<close> bounds \<open>\<bar>P\<bar>\<close>, then after \<open>k\<close> more steps a finite result is
  within the same bound for \<open>j + k\<close> steps, with the sum of the magnitudes of the terms
  for \<open>A\<close>.
\<close>

lemma PolynomialFunction_Eval_binary64_loop_error:
  fixes x :: real and c :: "real list"
  shows "k \<le> length c \<Longrightarrow> \<bar>P\<bar> \<le> A \<Longrightarrow>
    \<bar>r - P\<bar> \<le> ((1 + 1 / 2 ^ 53) ^ (2 * j) - 1) * A +
                3 * (1 / 2 ^ 1075) * (real j * ((1 + 1 / 2 ^ 53) ^ (2 * j) * max 1 \<bar>x\<bar> ^ j)) \<Longrightarrow>
    PolynomialFunction_Eval_binary64_loop impl (map Fin c) (Fin x) k (Fin r) = Inr (Fin v) \<Longrightarrow>
    \<bar>v - (P * x ^ k + (\<Sum>i<k. c ! i * x ^ i))\<bar> \<le>
      ((1 + 1 / 2 ^ 53) ^ (2 * (j + k)) - 1) * (A * \<bar>x\<bar> ^ k + (\<Sum>i<k. \<bar>c ! i\<bar> * \<bar>x\<bar> ^ i)) +
      3 * (1 / 2 ^ 1075) *
        (real (j + k) * ((1 + 1 / 2 ^ 53) ^ (2 * (j + k)) * max 1 \<bar>x\<bar> ^ (j + k)))"
proof -
  define u :: real where "u = 1 / 2 ^ 53"
  define eta :: real where "eta = 1 / 2 ^ 1075"
  define M where "M = max 1 \<bar>x\<bar>"
  define G where "G = (\<lambda>j::nat. (1 + u) ^ (2 * j))"
  define H where "H = (\<lambda>j::nat. 3 * eta * (real j * (G j * M ^ j)))"
  have u: "0 \<le> u" and eta: "0 \<le> eta" and M: "1 \<le> M" "\<bar>x\<bar> \<le> M"
    by (simp_all add: u_def eta_def M_def)
  have G1: "1 \<le> G j" for j by (simp add: G_def u)
  have GS: "G (Suc j) = (1 + u)\<^sup>2 * G j" for j
    by (simp add: G_def power2_eq_square algebra_simps)
  have main: "\<bar>v - (P * x ^ k + (\<Sum>i<k. c ! i * x ^ i))\<bar> \<le>
      (G (j + k) - 1) * (A * \<bar>x\<bar> ^ k + (\<Sum>i<k. \<bar>c ! i\<bar> * \<bar>x\<bar> ^ i)) + H (j + k)"
    if "k \<le> length c" "\<bar>P\<bar> \<le> A" "\<bar>r - P\<bar> \<le> (G j - 1) * A + H j"
      "PolynomialFunction_Eval_binary64_loop impl (map Fin c) (Fin x) k (Fin r) = Inr (Fin v)"
    for k j r P A
    using that
  proof (induction k arbitrary: j r P A)
    case 0
    then show ?case by simp
  next
    case (Suc k)
    from Suc.prems(1) have k: "k < length c" "k \<le> length c" by simp_all
    define ck where "ck = c ! k"
    from Suc.prems(4) k(1)
    have loop: "PolynomialFunction_Eval_binary64_loop impl (map Fin c) (Fin x) k
                  (mul_add impl (Fin x) (Fin r) (Fin ck)) = Inr (Fin v)"
      by (simp add: ck_def)
    have "\<exists>r'. mul_add impl (Fin x) (Fin r) (Fin ck) = Fin r'"
    proof (rule ccontr)
      assume "\<not> (\<exists>r'. mul_add impl (Fin x) (Fin r) (Fin ck) = Fin r')"
      then have "\<forall>a. mul_add impl (Fin x) (Fin r) (Fin ck) \<noteq> Fin a" by simp
      from PolynomialFunction_Eval_binary64_loop_not_finite [OF this] loop show False by blast
    qed
    then obtain r' where r': "mul_add impl (Fin x) (Fin r) (Fin ck) = Fin r'" ..
    define w where "w = (1 + u)\<^sup>2 - 1"
    define X where "X = \<bar>x\<bar>"
    define E where "E = (G j - 1) * A + H j"
    have w: "0 \<le> w" "u \<le> w" using u by (simp_all add: w_def power2_eq_square algebra_simps)
    have X: "0 \<le> X" "X \<le> M" using M by (simp_all add: X_def)
    have A: "0 \<le> A" using Suc.prems(2) by linarith
    have Hj: "0 \<le> H j" using eta G1 [of j] M by (simp add: H_def)
    have E: "0 \<le> E" "\<bar>r - P\<bar> \<le> E"
      using Suc.prems(3) A Hj G1 [of j] by (simp_all add: E_def)
    have g': "G (Suc j) = (1 + w) * G j" by (simp add: GS w_def)
    from mul_add_error [OF r']
    have d: "\<bar>r' - (x * r + ck)\<bar> \<le> w * \<bar>x * r\<bar> + u * \<bar>ck\<bar> + 3 * eta"
      by (simp only: w_def u_def eta_def)
    have "\<bar>r\<bar> \<le> A + E" using Suc.prems(2) E(2) by linarith
    then have "X * \<bar>r\<bar> \<le> X * (A + E)" using X(1) by (rule mult_left_mono)
    then have xr: "\<bar>x * r\<bar> \<le> X * (A + E)" by (simp add: X_def abs_mult)
    have "w * \<bar>x * r\<bar> \<le> w * (X * (A + E))" using xr w(1) by (rule mult_left_mono)
    with d have d': "\<bar>r' - (x * r + ck)\<bar> \<le> w * (X * (A + E)) + u * \<bar>ck\<bar> + 3 * eta" by linarith
    have "X * \<bar>r - P\<bar> \<le> X * E" using E(2) X(1) by (rule mult_left_mono)
    then have xe: "\<bar>x * (r - P)\<bar> \<le> X * E" by (simp add: X_def abs_mult)
    have "r' - (x * P + ck) = (r' - (x * r + ck)) + x * (r - P)" by (simp add: algebra_simps)
    then have "\<bar>r' - (x * P + ck)\<bar> \<le> \<bar>r' - (x * r + ck)\<bar> + \<bar>x * (r - P)\<bar>"
      by (simp only: abs_triangle_ineq)
    with d' xe
    have F1: "\<bar>r' - (x * P + ck)\<bar> \<le> w * (X * (A + E)) + X * E + u * \<bar>ck\<bar> + 3 * eta"
      by linarith
    have F2: "w * (X * (A + E)) + X * E = (G (Suc j) - 1) * (X * A) + (1 + w) * (X * H j)"
      by (simp add: E_def g' algebra_simps)
    have F3: "(1 + w) * (X * H j) + 3 * eta \<le> H (Suc j)"
    proof -
      have gm: "1 \<le> G (Suc j) * M ^ Suc j"
        using G1 [of "Suc j"] M(1) by (metis mult_mono one_le_power mult_1 zero_le_one order_trans)
      have "(1 + w) * (X * H j) = 3 * eta * (real j * (G (Suc j) * (X * M ^ j)))"
        by (simp add: H_def g' algebra_simps)
      also have "\<dots> \<le> 3 * eta * (real j * (G (Suc j) * (M * M ^ j)))"
      proof -
        have xm: "X * M ^ j \<le> M * M ^ j" using X(2) M(1) by (intro mult_right_mono) simp_all
        have g0: "0 \<le> G (Suc j)" using G1 [of "Suc j"] by linarith
        have s1: "G (Suc j) * (X * M ^ j) \<le> G (Suc j) * (M * M ^ j)"
          using xm g0 by (rule mult_left_mono)
        have s2: "real j * (G (Suc j) * (X * M ^ j)) \<le> real j * (G (Suc j) * (M * M ^ j))"
          using s1 by (rule mult_left_mono) simp
        have e0: "0 \<le> 3 * eta" using eta by simp
        show ?thesis using s2 e0 by (rule mult_left_mono)
      qed
      finally have a: "(1 + w) * (X * H j) \<le> 3 * eta * (real j * (G (Suc j) * M ^ Suc j))"
        by simp
      have "3 * eta * 1 \<le> 3 * eta * (G (Suc j) * M ^ Suc j)"
        using gm eta by (intro mult_left_mono) simp_all
      then have b: "3 * eta \<le> 3 * eta * (G (Suc j) * M ^ Suc j)" by simp
      have "H (Suc j) = 3 * eta * (real j * (G (Suc j) * M ^ Suc j)) +
                        3 * eta * (G (Suc j) * M ^ Suc j)"
        by (simp add: H_def algebra_simps)
      with a b show ?thesis by linarith
    qed
    have F4: "u * \<bar>ck\<bar> \<le> (G (Suc j) - 1) * \<bar>ck\<bar>"
    proof -
      have "w * 1 \<le> w * G j" using w(1) G1 [of j] by (intro mult_left_mono)
      then have "u \<le> G (Suc j) - 1" using w(2) G1 [of j] by (simp add: g' algebra_simps)
      then show ?thesis by (intro mult_right_mono) simp_all
    qed
    have new: "\<bar>r' - (x * P + ck)\<bar> \<le> (G (Suc j) - 1) * (X * A + \<bar>ck\<bar>) + H (Suc j)"
    proof -
      have "(G (Suc j) - 1) * (X * A + \<bar>ck\<bar>) =
            (G (Suc j) - 1) * (X * A) + (G (Suc j) - 1) * \<bar>ck\<bar>"
        by (simp add: algebra_simps)
      with F1 F2 F3 F4 show ?thesis by linarith
    qed
    have bound: "\<bar>x * P + ck\<bar> \<le> X * A + \<bar>ck\<bar>"
    proof -
      have "X * \<bar>P\<bar> \<le> X * A" using Suc.prems(2) X(1) by (rule mult_left_mono)
      then have "\<bar>x * P\<bar> \<le> X * A" by (simp add: X_def abs_mult)
      then show ?thesis by linarith
    qed
    from loop r' have loop': "PolynomialFunction_Eval_binary64_loop impl (map Fin c) (Fin x) k
                  (Fin r') = Inr (Fin v)" by simp
    from Suc.IH [OF k(2) bound new loop']
    have "\<bar>v - ((x * P + ck) * x ^ k + (\<Sum>i<k. c ! i * x ^ i))\<bar> \<le>
            (G (Suc j + k) - 1) * ((X * A + \<bar>ck\<bar>) * \<bar>x\<bar> ^ k + (\<Sum>i<k. \<bar>c ! i\<bar> * \<bar>x\<bar> ^ i)) +
            H (Suc j + k)" .
    moreover have "(x * P + ck) * x ^ k + (\<Sum>i<k. c ! i * x ^ i) =
                   P * x ^ Suc k + (\<Sum>i<Suc k. c ! i * x ^ i)"
      by (simp add: ck_def algebra_simps)
    moreover have "(X * A + \<bar>ck\<bar>) * \<bar>x\<bar> ^ k + (\<Sum>i<k. \<bar>c ! i\<bar> * \<bar>x\<bar> ^ i) =
                   A * \<bar>x\<bar> ^ Suc k + (\<Sum>i<Suc k. \<bar>c ! i\<bar> * \<bar>x\<bar> ^ i)"
      by (simp add: ck_def X_def algebra_simps)
    ultimately show ?case by simp
  qed
  assume "k \<le> length c" "\<bar>P\<bar> \<le> A"
    "\<bar>r - P\<bar> \<le> ((1 + 1 / 2 ^ 53) ^ (2 * j) - 1) * A +
                3 * (1 / 2 ^ 1075) * (real j * ((1 + 1 / 2 ^ 53) ^ (2 * j) * max 1 \<bar>x\<bar> ^ j))"
    "PolynomialFunction_Eval_binary64_loop impl (map Fin c) (Fin x) k (Fin r) = Inr (Fin v)"
  then have "\<bar>v - (P * x ^ k + (\<Sum>i<k. c ! i * x ^ i))\<bar> \<le>
      (G (j + k) - 1) * (A * \<bar>x\<bar> ^ k + (\<Sum>i<k. \<bar>c ! i\<bar> * \<bar>x\<bar> ^ i)) + H (j + k)"
    by (intro main) (simp_all only: G_def H_def u_def eta_def M_def)
  then show ?thesis by (simp only: G_def H_def u_def eta_def M_def)
qed

text \<open>
  For at most \<open>2\<^sup>2\<^sup>0\<close> coefficients the factor \<open>G\<^sub>n - 1\<close> is below \<open>10\<^sup>-\<^sup>9\<close> and the underflow
  term below \<open>2\<^sup>-\<^sup>1\<^sup>0\<^sup>5\<^sup>2 M\<^sup>n\<close>.
\<close>

lemma PolynomialFunction_Eval_binary64_error:
  fixes x :: real and c :: "real list"
  assumes "NewPolynomialFunction h cs = Some pf" and "slice_at h cs = map Fin c"
    and "length c \<le> 2 ^ 20"
    and "PolynomialFunction_Eval_binary64 impl h pf (Fin x) = Inr (Fin v)"
  shows "\<bar>v - (\<Sum>i<length c. c ! i * x ^ i)\<bar> \<le>
           1 / 10 ^ 9 * (\<Sum>i<length c. \<bar>c ! i\<bar> * \<bar>x\<bar> ^ i) +
           1 / 2 ^ 1052 * max 1 \<bar>x\<bar> ^ (length c - 1)"
proof -
  from assms(1,2) have pf: "coefficients pf = cs" and ne: "c \<noteq> []"
    by (auto simp: NewPolynomialFunction_def split: if_splits)
  then obtain n where n: "length c = Suc n" by (cases c) auto
  define eta :: real where "eta = 1 / 2 ^ 1075"
  define g :: real where "g = (1 + 1 / 2 ^ 53) ^ (2 * (0 + n))"
  define S where "S = (\<Sum>i<length c. c ! i * x ^ i)"
  define T where "T = (\<Sum>i<length c. \<bar>c ! i\<bar> * \<bar>x\<bar> ^ i)"
  define Mn where "Mn = max 1 \<bar>x\<bar> ^ (0 + n)"
  have loop: "PolynomialFunction_Eval_binary64_loop impl (map Fin c) (Fin x) n (Fin (c ! n)) =
          Inr (Fin v)"
    using assms(2,4) pf n ne by (simp add: PolynomialFunction_Eval_binary64_def Let_def)
  have "\<bar>v - (c ! n * x ^ n + (\<Sum>i<n. c ! i * x ^ i))\<bar> \<le>
      ((1 + 1 / 2 ^ 53) ^ (2 * (0 + n)) - 1) *
        (\<bar>c ! n\<bar> * \<bar>x\<bar> ^ n + (\<Sum>i<n. \<bar>c ! i\<bar> * \<bar>x\<bar> ^ i)) +
      3 * (1 / 2 ^ 1075) *
        (real (0 + n) * ((1 + 1 / 2 ^ 53) ^ (2 * (0 + n)) * max 1 \<bar>x\<bar> ^ (0 + n)))"
  proof (rule PolynomialFunction_Eval_binary64_loop_error [OF _ _ _ loop])
    show "n \<le> length c" using n by simp
    show "\<bar>c ! n\<bar> \<le> \<bar>c ! n\<bar>" by simp
    show "\<bar>c ! n - c ! n\<bar> \<le> ((1 + 1 / 2 ^ 53) ^ (2 * 0) - 1) * \<bar>c ! n\<bar> +
            3 * (1 / 2 ^ 1075) * (real 0 * ((1 + 1 / 2 ^ 53) ^ (2 * 0) * max 1 \<bar>x\<bar> ^ 0))"
      by simp
  qed
  moreover have "c ! n * x ^ n + (\<Sum>i<n. c ! i * x ^ i) = S"
    by (simp add: S_def n add.commute)
  moreover have "\<bar>c ! n\<bar> * \<bar>x\<bar> ^ n + (\<Sum>i<n. \<bar>c ! i\<bar> * \<bar>x\<bar> ^ i) = T"
    by (simp add: T_def n add.commute)
  ultimately have e: "\<bar>v - S\<bar> \<le> (g - 1) * T + 3 * eta * (real n * (g * Mn))"
    by (simp only: g_def eta_def Mn_def add_0)
  have T: "0 \<le> T" unfolding T_def by (intro sum_nonneg mult_nonneg_nonneg) simp_all
  have Mn: "0 \<le> Mn" by (simp add: Mn_def)
  have nn: "n \<le> 2 ^ 20" using assms(3) n by simp
  then have rn: "real n \<le> 2 ^ 20" by (metis of_nat_le_iff of_nat_numeral of_nat_power)
  have g1: "1 \<le> g" by (simp add: g_def)
  have g2: "g \<le> 1 + 1 / 2 ^ 31" unfolding g_def add_0 using nn by (rule growth_bound)
  have "(g - 1) * T \<le> 1 / 2 ^ 31 * T" using g2 T by (intro mult_right_mono) simp_all
  also have "\<dots> \<le> 1 / 10 ^ 9 * T" using T by (intro mult_right_mono) simp_all
  finally have a: "(g - 1) * T \<le> 1 / 10 ^ 9 * T" .
  have "real n * g \<le> 2 ^ 20 * (1 + 1 / 2 ^ 31)"
    using rn g2 g1 by (intro mult_mono) simp_all
  then have "real n * g * Mn \<le> 2 ^ 20 * (1 + 1 / 2 ^ 31) * Mn"
    using Mn by (rule mult_right_mono)
  then have "3 * eta * (real n * g * Mn) \<le> 3 * eta * (2 ^ 20 * (1 + 1 / 2 ^ 31) * Mn)"
    by (intro mult_left_mono) (simp_all add: eta_def)
  also have "\<dots> = (3 * eta * (2 ^ 20 * (1 + 1 / 2 ^ 31))) * Mn" by (simp add: algebra_simps)
  also have "\<dots> \<le> 1 / 2 ^ 1052 * Mn"
    using Mn by (intro mult_right_mono) (simp_all add: eta_def)
  finally have b: "3 * eta * (real n * (g * Mn)) \<le> 1 / 2 ^ 1052 * Mn"
    by (simp add: mult.assoc)
  from e a b have "\<bar>v - S\<bar> \<le> 1 / 10 ^ 9 * T + 1 / 2 ^ 1052 * Mn" by linarith
  then show ?thesis by (simp only: S_def T_def Mn_def n add_0 diff_Suc_1)
qed

text \<open>
  On integers that stay within \<open>2\<^sup>5\<^sup>3\<close> no operation of Horner's loop rounds, fused or
  not: with \<open>m = max 1 \<bar>x\<bar>\<close>, the bound \<open>\<bar>r\<bar> m\<^sup>k + \<Sum>\<^sub>i\<^sub><\<^sub>k \<bar>c\<^sub>i\<bar> m\<^sup>i \<le> 2\<^sup>5\<^sup>3\<close> on the running
  result \<open>r\<close> is kept by every step and bounds the product and the sum of the step.
\<close>

lemma mul_add_int:
  assumes "\<bar>x * r\<bar> \<le> 2 ^ 53" "\<bar>x * r + c\<bar> \<le> 2 ^ 53"
  shows "mul_add impl (Fin (of_int x)) (Fin (of_int r)) (Fin (of_int c)) =
           Fin (of_int (x * r + c))"
proof -
  have p: "round64 (of_int x * of_int r) = Fin (of_int x * of_int r)"
    using round64_of_int [OF assms(1)] by simp
  have s: "round64 (of_int x * of_int r + of_int c) = Fin (of_int x * of_int r + of_int c)"
    using round64_of_int [OF assms(2)] by simp
  show ?thesis by (simp add: mul_add_def p s)
qed

lemma PolynomialFunction_Eval_binary64_loop_int:
  fixes x r :: int and c :: "int list"
  assumes "m = max 1 \<bar>x\<bar>"
  shows "k \<le> length c \<Longrightarrow>
   \<bar>r\<bar> * m ^ k + (\<Sum>i<k. \<bar>c ! i\<bar> * m ^ i) \<le> 2 ^ 53 \<Longrightarrow>
   PolynomialFunction_Eval_binary64_loop impl (map (\<lambda>v. Fin (of_int v)) c) (Fin (of_int x)) k
       (Fin (of_int r)) =
     Inr (Fin (of_int (r * x ^ k + (\<Sum>i<k. c ! i * x ^ i))))"
proof (induction k arbitrary: r)
  case 0
  then show ?case by simp
next
  case (Suc k)
  have m1: "1 \<le> m" and mx: "\<bar>x\<bar> \<le> m" using assms by simp_all
  then have mk: "1 \<le> m ^ k" by simp
  have rest: "0 \<le> (\<Sum>i<k. \<bar>c ! i\<bar> * m ^ i)"
    using m1 by (intro sum_nonneg mult_nonneg_nonneg) simp_all
  from Suc.prems(2)
  have bound: "\<bar>r\<bar> * (m * m ^ k) + \<bar>c ! k\<bar> * m ^ k + (\<Sum>i<k. \<bar>c ! i\<bar> * m ^ i) \<le> 2 ^ 53"
    by (simp add: algebra_simps)
  have "\<bar>r\<bar> * \<bar>x\<bar> \<le> \<bar>r\<bar> * m"
    using mx by (intro mult_left_mono) simp_all
  then have xr: "\<bar>x * r\<bar> \<le> \<bar>r\<bar> * m"
    by (simp add: abs_mult mult.commute)
  have "\<bar>r\<bar> * m * 1 \<le> \<bar>r\<bar> * m * m ^ k"
    using mk m1 by (intro mult_left_mono) simp_all
  then have rm: "\<bar>r\<bar> * m \<le> \<bar>r\<bar> * (m * m ^ k)" by (simp add: mult.assoc)
  have "\<bar>c ! k\<bar> * 1 \<le> \<bar>c ! k\<bar> * m ^ k"
    using mk by (intro mult_left_mono) simp_all
  then have ck: "\<bar>c ! k\<bar> \<le> \<bar>c ! k\<bar> * m ^ k" by simp
  have ck0: "0 \<le> \<bar>c ! k\<bar> * m ^ k" using m1 by simp
  have b1: "\<bar>x * r\<bar> \<le> 2 ^ 53" using xr rm bound rest ck0 by linarith
  have "\<bar>x * r + c ! k\<bar> \<le> \<bar>x * r\<bar> + \<bar>c ! k\<bar>" by (rule abs_triangle_ineq)
  then have b2: "\<bar>x * r + c ! k\<bar> \<le> 2 ^ 53" using xr rm ck bound rest by linarith
  have "\<bar>x * r + c ! k\<bar> * m ^ k \<le> (\<bar>r\<bar> * m + \<bar>c ! k\<bar>) * m ^ k"
    using xr abs_triangle_ineq [of "x * r" "c ! k"] m1
    by (intro mult_right_mono) simp_all
  then have b3: "\<bar>x * r + c ! k\<bar> * m ^ k + (\<Sum>i<k. \<bar>c ! i\<bar> * m ^ i) \<le> 2 ^ 53"
    using bound by (simp add: algebra_simps)
  from Suc.prems(1) have k: "k < length c" "k \<le> length c" by simp_all
  have "PolynomialFunction_Eval_binary64_loop impl (map (\<lambda>v. Fin (of_int v)) c)
            (Fin (of_int x)) (Suc k) (Fin (of_int r)) =
        PolynomialFunction_Eval_binary64_loop impl (map (\<lambda>v. Fin (of_int v)) c)
            (Fin (of_int x)) k (Fin (of_int (x * r + c ! k)))"
    using k(1) mul_add_int [OF b1 b2, of impl] by simp
  also have "\<dots> = Inr (Fin (of_int ((x * r + c ! k) * x ^ k + (\<Sum>i<k. c ! i * x ^ i))))"
    using k(2) b3 by (rule Suc.IH)
  also have "(x * r + c ! k) * x ^ k + (\<Sum>i<k. c ! i * x ^ i) =
             r * x ^ Suc k + (\<Sum>i<Suc k. c ! i * x ^ i)"
    by (simp add: algebra_simps)
  finally show ?case .
qed

lemma PolynomialFunction_Eval_binary64_int:
  fixes x :: int and c :: "int list"
  assumes "NewPolynomialFunction h cs = Some pf"
    and "slice_at h cs = map (\<lambda>v. Fin (of_int v)) c"
    and "(\<Sum>i<length c. \<bar>c ! i\<bar> * max 1 \<bar>x\<bar> ^ i) \<le> 2 ^ 53"
  shows "PolynomialFunction_Eval_binary64 impl h pf (Fin (of_int x)) =
           Inr (Fin (of_int (\<Sum>i<length c. c ! i * x ^ i)))"
proof -
  from assms(1,2) have pf: "coefficients pf = cs" and ne: "c \<noteq> []"
    by (auto simp: NewPolynomialFunction_def split: if_splits)
  then obtain n where n: "length c = Suc n" by (cases c) auto
  have "PolynomialFunction_Eval_binary64 impl h pf (Fin (of_int x)) =
          PolynomialFunction_Eval_binary64_loop impl (map (\<lambda>v. Fin (of_int v)) c)
            (Fin (of_int x)) n (Fin (of_int (c ! n)))"
    using assms(2) pf n ne by (simp add: PolynomialFunction_Eval_binary64_def Let_def)
  also have "\<dots> = Inr (Fin (of_int (c ! n * x ^ n + (\<Sum>i<n. c ! i * x ^ i))))"
  proof (rule PolynomialFunction_Eval_binary64_loop_int [OF refl])
    show "n \<le> length c" using n by simp
    show "\<bar>c ! n\<bar> * max 1 \<bar>x\<bar> ^ n + (\<Sum>i<n. \<bar>c ! i\<bar> * max 1 \<bar>x\<bar> ^ i) \<le> 2 ^ 53"
      using assms(3) n by (simp add: add.commute)
  qed
  finally show ?thesis using n by (simp add: add.commute)
qed

text \<open>With exact operations Horner's loop returns the power sum.\<close>

lemma PolynomialFunction_Eval_exact:
  assumes "NewPolynomialFunction h cs = Some pf" and "slice_at h cs = map Fin c"
  shows "PolynomialFunction_Eval h pf (Fin x) = Inr (Fin (\<Sum>i<length c. c ! i * x ^ i))"
proof -
  from assms have pf: "coefficients pf = cs" and ne: "c \<noteq> []"
    by (auto simp: NewPolynomialFunction_def split: if_splits)
  then obtain n where n: "length c = Suc n" by (cases c) auto
  have "PolynomialFunction_Eval h pf (Fin x) =
          PolynomialFunction_Eval_loop (map Fin c) (Fin x) n (Fin (c ! n))"
    using assms(2) pf n ne by (simp add: PolynomialFunction_Eval_def Let_def)
  also have "\<dots> = Inr (Fin (c ! n * x ^ n + (\<Sum>i<n. c ! i * x ^ i)))"
    using n by (intro PolynomialFunction_Eval_loop_finite) simp
  finally show ?thesis using n by (simp add: add.commute)
qed

text \<open>
  C7: \<open>Eval\<close> is Horner's method, from the highest to the lowest degree. For a polynomial
  function constructed from the coefficients \<open>c\<^sub>0, \<dots>, c\<^sub>n\<close> and a finite \<open>x\<close>: with exact
  operations it returns the power sum \<open>\<Sum> c\<^sub>i x\<^sup>i\<close>, exactly. In binary64, on every
  implementation and for at most \<open>2\<^sup>2\<^sup>0\<close> coefficients, a finite result differs from the power
  sum by at most \<open>10\<^sup>-\<^sup>9 \<Sum> \<bar>c\<^sub>i\<bar> \<bar>x\<bar>\<^sup>i + 2\<^sup>-\<^sup>1\<^sup>0\<^sup>5\<^sup>2 max(1, \<bar>x\<bar>)\<^sup>n\<close>: the tolerance \<open>10\<^sup>-\<^sup>9\<close> is relative
  to the sum of the magnitudes of the terms, not to the power sum (an overflow makes the
  result an infinity or NaN). In binary64 it returns the power sum exactly when the
  coefficients and \<open>x\<close> are integers with \<open>\<Sum> \<bar>c\<^sub>i\<bar> max(1, \<bar>x\<bar>)\<^sup>i \<le> 2\<^sup>5\<^sup>3\<close>, where no operation
  rounds.
\<close>

theorem PolynomialFunction_Eval_power_sum:
  "(NewPolynomialFunction h cs = Some pf \<and> slice_at h cs = map Fin c \<longrightarrow>
      PolynomialFunction_Eval h pf (Fin x) = Inr (Fin (\<Sum>i<length c. c ! i * x ^ i)))
   \<and> (NewPolynomialFunction h cs = Some pf \<and> slice_at h cs = map Fin c \<and>
       length c \<le> 2 ^ 20 \<and>
       PolynomialFunction_Eval_binary64 impl h pf (Fin x) = Inr (Fin v) \<longrightarrow>
      \<bar>v - (\<Sum>i<length c. c ! i * x ^ i)\<bar> \<le>
        1 / 10 ^ 9 * (\<Sum>i<length c. \<bar>c ! i\<bar> * \<bar>x\<bar> ^ i) +
        1 / 2 ^ 1052 * max 1 \<bar>x\<bar> ^ (length c - 1))
   \<and> (NewPolynomialFunction h cs = Some pf \<and>
       slice_at h cs = map (\<lambda>v. Fin (of_int v)) ci \<and>
       (\<Sum>i<length ci. \<bar>ci ! i\<bar> * max 1 \<bar>xi\<bar> ^ i) \<le> 2 ^ 53 \<longrightarrow>
      PolynomialFunction_Eval_binary64 impl h pf (Fin (of_int xi)) =
        Inr (Fin (of_int (\<Sum>i<length ci. ci ! i * xi ^ i))))"
  using PolynomialFunction_Eval_exact [of h cs pf c x]
    PolynomialFunction_Eval_binary64_error [of h cs pf c impl x v]
    PolynomialFunction_Eval_binary64_int [of h cs pf ci xi impl]
  by blast

text \<open>
  The polynomial \<open>(x - 1)\<^sup>3 = -1 + 3x - 3x\<^sup>2 + x\<^sup>3\<close> at \<open>x = 1 + 2\<^sup>-\<^sup>3\<^sup>0\<close>, a binary64 as the
  coefficients are. Where the product and the sum round one after the other,
  \<open>x (x - 3) = -2 - 2\<^sup>-\<^sup>3\<^sup>0 + 2\<^sup>-\<^sup>6\<^sup>0\<close> rounds to \<open>-2 - 2\<^sup>-\<^sup>3\<^sup>0\<close>, then \<open>x (1 - 2\<^sup>-\<^sup>3\<^sup>0) = 1 - 2\<^sup>-\<^sup>6\<^sup>0\<close> rounds
  to \<open>1\<close>, and \<open>Eval\<close> returns \<open>0\<close>. Where they are fused, \<open>x (x - 3) + 3 = 1 - 2\<^sup>-\<^sup>3\<^sup>0 + 2\<^sup>-\<^sup>6\<^sup>0\<close>
  rounds to \<open>1 - 2\<^sup>-\<^sup>3\<^sup>0\<close>, and \<open>Eval\<close> returns \<open>x (1 - 2\<^sup>-\<^sup>3\<^sup>0) - 1 = -2\<^sup>-\<^sup>6\<^sup>0\<close>.
\<close>

lemma cube_Eval_binary64:
  "PolynomialFunction_Eval_binary64 amd64 [[Fin (- 1), Fin 3, Fin (- 3), Fin 1]]
       (PolynomialFunction 0) (Fin (1 + 1 / 2 ^ 30)) = Inr (Fin 0)"
  "PolynomialFunction_Eval_binary64 (amd64\<lparr>fuses := True\<rparr>)
       [[Fin (- 1), Fin 3, Fin (- 3), Fin 1]]
       (PolynomialFunction 0) (Fin (1 + 1 / 2 ^ 30)) = Inr (Fin (- (1 / 2 ^ 60)))"
proof -
  have u1: "round64 (1 + 1 / 2 ^ 30) = Fin (1 + 1 / 2 ^ 30)"
  proof -
    have "round_half_even ((1 + 1 / 2 ^ 30) / 2 powi (0 - 52)) = (2 ^ 52 + 2 ^ 22)"
      by (rule round_half_even_near) simp
    from round64_eq [of "(1 + 1 / 2 ^ 30)" "0", OF _ _ _ _ this]
    show ?thesis by simp
  qed
  have u2: "round64 (- 2 + 1 / 2 ^ 30) = Fin (- 2 + 1 / 2 ^ 30)"
  proof -
    have "round_half_even ((- 2 + 1 / 2 ^ 30) / 2 powi (0 - 52)) = (- (2 ^ 53) + 2 ^ 22)"
      by (rule round_half_even_near) simp
    from round64_eq [of "(- 2 + 1 / 2 ^ 30)" "0", OF _ _ _ _ this]
    show ?thesis by simp
  qed
  have u3: "round64 (- 2 - 1 / 2 ^ 30 + 1 / 2 ^ 60) = Fin (- 2 - 1 / 2 ^ 30)"
  proof -
    have "round_half_even ((- 2 - 1 / 2 ^ 30 + 1 / 2 ^ 60) / 2 powi (1 - 52)) = (- (2 ^ 52) - 2 ^ 21)"
      by (rule round_half_even_near) simp
    from round64_eq [of "(- 2 - 1 / 2 ^ 30 + 1 / 2 ^ 60)" "1", OF _ _ _ _ this]
    show ?thesis by simp
  qed
  have u4: "round64 (1 - 1 / 2 ^ 30) = Fin (1 - 1 / 2 ^ 30)"
  proof -
    have "round_half_even ((1 - 1 / 2 ^ 30) / 2 powi (- 1 - 52)) = (2 ^ 53 - 2 ^ 23)"
      by (rule round_half_even_near) simp
    from round64_eq [of "(1 - 1 / 2 ^ 30)" "- 1", OF _ _ _ _ this]
    show ?thesis by simp
  qed
  have u5: "round64 (1 - 1 / 2 ^ 60) = Fin 1"
  proof -
    have "round_half_even ((1 - 1 / 2 ^ 60) / 2 powi (- 1 - 52)) = (2 ^ 53)"
      by (rule round_half_even_near) simp
    from round64_eq [of "(1 - 1 / 2 ^ 60)" "- 1", OF _ _ _ _ this]
    show ?thesis by simp
  qed
  have f2: "round64 (1 - 1 / 2 ^ 30 + 1 / 2 ^ 60) = Fin (1 - 1 / 2 ^ 30)"
  proof -
    have "round_half_even ((1 - 1 / 2 ^ 30 + 1 / 2 ^ 60) / 2 powi (- 1 - 52)) = (2 ^ 53 - 2 ^ 23)"
      by (rule round_half_even_near) simp
    from round64_eq [of "(1 - 1 / 2 ^ 30 + 1 / 2 ^ 60)" "- 1", OF _ _ _ _ this]
    show ?thesis by simp
  qed
  have f3: "round64 (- (1 / 2 ^ 60)) = Fin (- (1 / 2 ^ 60))"
  proof -
    have "round_half_even ((- (1 / 2 ^ 60)) / 2 powi (- 60 - 52)) = (- (2 ^ 52))"
      by (rule round_half_even_near) simp
    from round64_eq [of "(- (1 / 2 ^ 60))" "- 60", OF _ _ _ _ this]
    show ?thesis by simp
  qed
  have z: "round64 0 = Fin 0" by (simp add: round64_def)
  show "PolynomialFunction_Eval_binary64 amd64 [[Fin (- 1), Fin 3, Fin (- 3), Fin 1]]
       (PolynomialFunction 0) (Fin (1 + 1 / 2 ^ 30)) = Inr (Fin 0)"
    using u1 u2 u3 u4 u5 z
    by (simp add: PolynomialFunction_Eval_binary64_def slice_at_def mul_add_def amd64_def
        numeral_3_eq_3)
  show "PolynomialFunction_Eval_binary64 (amd64\<lparr>fuses := True\<rparr>)
       [[Fin (- 1), Fin 3, Fin (- 3), Fin 1]]
       (PolynomialFunction 0) (Fin (1 + 1 / 2 ^ 30)) = Inr (Fin (- (1 / 2 ^ 60)))"
    using u2 f2 f3
    by (simp add: PolynomialFunction_Eval_binary64_def slice_at_def mul_add_def amd64_def
        numeral_3_eq_3)
qed

text \<open>
  The polynomial \<open>1 + 2x + 3x\<^sup>2\<close> at \<open>x = 2\<close>, with exact operations and in binary64, and
  the polynomial \<open>(x - 1)\<^sup>3\<close> at \<open>x = 1 + 2\<^sup>-\<^sup>3\<^sup>0\<close> in binary64, on amd64.
\<close>

theorem PolynomialFunction_Eval_power_sum_witness:
  "NewPolynomialFunction [[Fin 1, Fin 2, Fin 3]] 0 = Some (PolynomialFunction 0) \<and>
   slice_at [[Fin 1, Fin 2, Fin 3]] 0 = map Fin [1, 2, 3] \<and>
   PolynomialFunction_Eval [[Fin 1, Fin 2, Fin 3]] (PolynomialFunction 0) (Fin 2) = Inr (Fin 17) \<and>
   NewPolynomialFunction [[Fin (- 1), Fin 3, Fin (- 3), Fin 1]] 0 = Some (PolynomialFunction 0) \<and>
   slice_at [[Fin (- 1), Fin 3, Fin (- 3), Fin 1]] 0 = map Fin [- 1, 3, - 3, 1] \<and>
   length [- 1, 3, - 3, 1 :: real] \<le> 2 ^ 20 \<and>
   PolynomialFunction_Eval_binary64 amd64 [[Fin (- 1), Fin 3, Fin (- 3), Fin 1]]
       (PolynomialFunction 0) (Fin (1 + 1 / 2 ^ 30)) = Inr (Fin 0) \<and>
   \<bar>0 - (\<Sum>i<length [- 1, 3, - 3, 1 :: real]. [- 1, 3, - 3, 1] ! i * (1 + 1 / 2 ^ 30) ^ i)\<bar> \<le>
     1 / 10 ^ 9 *
       (\<Sum>i<length [- 1, 3, - 3, 1 :: real]. \<bar>[- 1, 3, - 3, 1] ! i\<bar> * \<bar>1 + 1 / 2 ^ 30\<bar> ^ i) +
     1 / 2 ^ 1052 * max 1 \<bar>1 + 1 / 2 ^ 30 :: real\<bar> ^ (length [- 1, 3, - 3, 1 :: real] - 1) \<and>
   slice_at [[Fin 1, Fin 2, Fin 3]] 0 = map (\<lambda>v. Fin (of_int v)) [1, 2, 3] \<and>
   (\<Sum>i<length [1, 2, 3 :: int]. \<bar>[1, 2, 3 :: int] ! i\<bar> * max 1 \<bar>2 :: int\<bar> ^ i) \<le> 2 ^ 53 \<and>
   PolynomialFunction_Eval_binary64 amd64 [[Fin 1, Fin 2, Fin 3]] (PolynomialFunction 0) (Fin 2) =
     Inr (Fin 17)"
proof -
  have new: "NewPolynomialFunction [[Fin 1, Fin 2, Fin 3]] 0 = Some (PolynomialFunction 0)"
    by (simp add: NewPolynomialFunction_def slice_at_def)
  have sl: "slice_at [[Fin 1, Fin 2, Fin 3]] 0 = map Fin [1, 2, 3]"
    by (simp add: slice_at_def)
  have sli: "slice_at [[Fin 1, Fin 2, Fin 3]] 0 = map (\<lambda>v. Fin (of_int v)) [1, 2, 3]"
    by (simp add: slice_at_def)
  have s: "(\<Sum>i<length [1, 2, 3 :: real]. [1, 2, 3 :: real] ! i * (2::real) ^ i) = 17"
    by (simp add: lessThan_Suc numeral_3_eq_3)
  have si: "(\<Sum>i<length [1, 2, 3 :: int]. [1, 2, 3 :: int] ! i * (2::int) ^ i) = 17"
    by (simp add: lessThan_Suc numeral_3_eq_3)
  have b: "(\<Sum>i<length [1, 2, 3 :: int]. \<bar>[1, 2, 3 :: int] ! i\<bar> * max 1 \<bar>2 :: int\<bar> ^ i) = 17"
    by (simp add: lessThan_Suc numeral_3_eq_3)
  have le: "(17 :: int) \<le> 2 ^ 53" by simp
  have first: "PolynomialFunction_Eval [[Fin 1, Fin 2, Fin 3]] (PolynomialFunction 0) (Fin 2) =
                 Inr (Fin 17) \<and>
               PolynomialFunction_Eval_binary64 amd64 [[Fin 1, Fin 2, Fin 3]]
                 (PolynomialFunction 0) (Fin 2) = Inr (Fin 17)"
    using PolynomialFunction_Eval_power_sum
      [where h = "[[Fin 1, Fin 2, Fin 3]]" and cs = 0 and pf = "PolynomialFunction 0"
         and c = "[1, 2, 3]" and x = 2 and ci = "[1, 2, 3]" and xi = 2 and impl = amd64]
      new sl sli s si b le
    by simp
  have newc: "NewPolynomialFunction [[Fin (- 1), Fin 3, Fin (- 3), Fin 1]] 0 =
                Some (PolynomialFunction 0)"
    by (simp add: NewPolynomialFunction_def slice_at_def)
  have slc: "slice_at [[Fin (- 1), Fin 3, Fin (- 3), Fin 1]] 0 = map Fin [- 1, 3, - 3, 1]"
    by (simp add: slice_at_def)
  have len: "length [- 1, 3, - 3, 1 :: real] \<le> 2 ^ 20" by simp
  have second: "\<bar>0 - (\<Sum>i<length [- 1, 3, - 3, 1 :: real].
                      [- 1, 3, - 3, 1] ! i * (1 + 1 / 2 ^ 30) ^ i)\<bar> \<le>
     1 / 10 ^ 9 *
       (\<Sum>i<length [- 1, 3, - 3, 1 :: real]. \<bar>[- 1, 3, - 3, 1] ! i\<bar> * \<bar>1 + 1 / 2 ^ 30\<bar> ^ i) +
     1 / 2 ^ 1052 * max 1 \<bar>1 + 1 / 2 ^ 30 :: real\<bar> ^ (length [- 1, 3, - 3, 1 :: real] - 1)"
    using PolynomialFunction_Eval_power_sum
      [where h = "[[Fin (- 1), Fin 3, Fin (- 3), Fin 1]]" and cs = 0
         and pf = "PolynomialFunction 0" and c = "[- 1, 3, - 3, 1]" and x = "1 + 1 / 2 ^ 30"
         and impl = amd64 and v = 0]
      newc slc len cube_Eval_binary64(1)
    by blast
  from new sl sli b le first newc slc len cube_Eval_binary64(1) second
  show ?thesis by (simp only: simp_thms)
qed

text \<open>
  The polynomial \<open>(x - 1)\<^sup>3\<close> at \<open>x = 1 + 2\<^sup>-\<^sup>3\<^sup>0\<close> again. The power sum is \<open>2\<^sup>-\<^sup>9\<^sup>0\<close>, and \<open>Eval\<close>
  returns it with exact operations. In binary64 \<open>Eval\<close> returns \<open>0\<close>, or \<open>-2\<^sup>-\<^sup>6\<^sup>0\<close> where the
  product and the sum are fused. Either result is farther from the power sum than
  \<open>10\<^sup>-\<^sup>9\<close> times the power sum: the error is the power sum itself, or \<open>2\<^sup>3\<^sup>0\<close> times it.
\<close>

theorem PolynomialFunction_Eval_cancellation:
  "PolynomialFunction_Eval_binary64 amd64 [[Fin (- 1), Fin 3, Fin (- 3), Fin 1]]
       (PolynomialFunction 0) (Fin (1 + 1 / 2 ^ 30)) = Inr (Fin 0) \<and>
   PolynomialFunction_Eval_binary64 (amd64\<lparr>fuses := True\<rparr>)
       [[Fin (- 1), Fin 3, Fin (- 3), Fin 1]]
       (PolynomialFunction 0) (Fin (1 + 1 / 2 ^ 30)) = Inr (Fin (- (1 / 2 ^ 60))) \<and>
   PolynomialFunction_Eval [[Fin (- 1), Fin 3, Fin (- 3), Fin 1]]
       (PolynomialFunction 0) (Fin (1 + 1 / 2 ^ 30)) = Inr (Fin (1 / 2 ^ 90)) \<and>
   - 1 + 3 * (1 + 1 / 2 ^ 30) - 3 * (1 + 1 / 2 ^ 30) ^ 2 + (1 + 1 / 2 ^ 30) ^ 3
     = (1 / 2 ^ 90 :: real) \<and>
   1 / 10 ^ 9 * \<bar>1 / 2 ^ 90 :: real\<bar> < \<bar>0 - 1 / 2 ^ 90\<bar> \<and>
   1 / 10 ^ 9 * \<bar>1 / 2 ^ 90 :: real\<bar> < \<bar>- (1 / 2 ^ 60) - 1 / 2 ^ 90\<bar>"
proof -
  have exact: "PolynomialFunction_Eval [[Fin (- 1), Fin 3, Fin (- 3), Fin 1]]
       (PolynomialFunction 0) (Fin (1 + 1 / 2 ^ 30)) = Inr (Fin (1 / 2 ^ 90))"
    by (simp add: PolynomialFunction_Eval_def slice_at_def numeral_3_eq_3)
  have sum: "- 1 + 3 * (1 + 1 / 2 ^ 30) - 3 * (1 + 1 / 2 ^ 30) ^ 2 + (1 + 1 / 2 ^ 30) ^ 3
     = (1 / 2 ^ 90 :: real)"
    by (simp add: power2_eq_square power3_eq_cube)
  have tol: "1 / 10 ^ 9 * \<bar>1 / 2 ^ 90 :: real\<bar> < \<bar>0 - 1 / 2 ^ 90\<bar>"
    "1 / 10 ^ 9 * \<bar>1 / 2 ^ 90 :: real\<bar> < \<bar>- (1 / 2 ^ 60) - 1 / 2 ^ 90\<bar>"
    by simp_all
  from cube_Eval_binary64 exact sum tol show ?thesis by (intro conjI)
qed

section \<open>SearchNextIndex on sorted points\<close>

lemma sorted_by_X_tail: "sorted_by_X (p # ps) \<Longrightarrow> sorted_by_X ps"
  by (cases ps) simp_all

lemma sorted_by_X_head: "sorted_by_X (p # ps) \<Longrightarrow> q \<in> set ps \<Longrightarrow> X p \<le> X q"
proof (induction ps arbitrary: p)
  case Nil
  then show ?case by simp
next
  case (Cons r ps)
  from Cons.prems(1) have pr: "X p \<le> X r" and s: "sorted_by_X (r # ps)" by simp_all
  show ?case
  proof (cases "q = r")
    case True
    with pr show ?thesis by simp
  next
    case False
    with Cons.prems(2) have "q \<in> set ps" by simp
    from Cons.IH [OF s this] have "X r \<le> X q" .
    with pr show ?thesis by (rule float64_le_trans)
  qed
qed

lemma sorted_by_X_nth:
  "sorted_by_X ps \<Longrightarrow> i < j \<Longrightarrow> j < length ps \<Longrightarrow> X (ps ! i) \<le> X (ps ! j)"
proof (induction ps arbitrary: i j)
  case Nil
  then show ?case by simp
next
  case (Cons p ps)
  from Cons.prems obtain j' where j: "j = Suc j'" and j': "j' < length ps"
    by (cases j) auto
  show ?case
  proof (cases i)
    case 0
    have "ps ! j' \<in> set ps" using j' by simp
    from sorted_by_X_head [OF Cons.prems(1) this] show ?thesis using 0 j by simp
  next
    case (Suc i')
    with Cons.prems j have "i' < j'" by simp
    from Cons.IH [OF sorted_by_X_tail [OF Cons.prems(1)] this j'] show ?thesis
      using Suc j by simp
  qed
qed

text \<open>
  The search never indexes outside the points, sorted or not, and returns an index
  between its bounds.
\<close>

lemma Search_loop_total:
  "i \<le> j \<Longrightarrow> j \<le> length ps \<Longrightarrow>
   \<exists>r. Search_loop
          (\<lambda>i. if i < length ps then Inr (x < X (ps ! i)) else Inl IndexOutOfRange) i j = Inr r
      \<and> i \<le> r \<and> r \<le> j"
proof (induction
    "\<lambda>i. if i < length ps then Inr (x < X (ps ! i)) else (Inl IndexOutOfRange :: error + bool)"
    i j rule: Search_loop.induct)
  case (1 i j)
  let ?f = "\<lambda>i. if i < length ps then Inr (x < X (ps ! i))
                 else (Inl IndexOutOfRange :: error + bool)"
  let ?h = "i + (j - i) div 2"
  show ?case
  proof (cases "i < j")
    case False
    with "1.prems" show ?thesis by (subst Search_loop.simps) simp
  next
    case True
    then have hj: "?h < j" and ih: "i \<le> ?h" by auto
    with "1.prems" have hlen: "?h < length ps" by simp
    then have fh: "?f ?h = Inr (x < X (ps ! ?h))" by simp
    show ?thesis
    proof (cases "x < X (ps ! ?h)")
      case lt: True
      from "1.hyps"(2) [OF True fh] lt ih hlen
      obtain r where "Search_loop ?f i ?h = Inr r" "i \<le> r" "r \<le> ?h" by auto
      with True hlen lt hj show ?thesis by (subst Search_loop.simps) simp
    next
      case ge: False
      from "1.hyps"(1) [OF True fh] ge hj "1.prems"(2)
      obtain r where "Search_loop ?f (?h + 1) j = Inr r" "?h + 1 \<le> r" "r \<le> j" by auto
      with True hlen ge ih show ?thesis by (subst Search_loop.simps) simp
    qed
  qed
qed

lemma SearchNextIndex_total: "\<exists>r. SearchNextIndex ps x = Inr r \<and> r \<le> length ps"
  using Search_loop_total [of 0 "length ps" ps x] by (auto simp: SearchNextIndex_def Search_def)

text \<open>
  The invariant of the binary search on sorted points: no abscissa below \<open>i\<close> exceeds
  \<open>x\<close>, and the abscissa at \<open>j\<close>, if there is one, does.
\<close>

lemma Search_loop_leftmost:
  assumes "sorted_by_X ps"
  shows "i \<le> j \<Longrightarrow> j \<le> length ps \<Longrightarrow>
    (\<forall>k<i. \<not> x < X (ps ! k)) \<Longrightarrow> (j < length ps \<longrightarrow> x < X (ps ! j)) \<Longrightarrow>
    \<exists>r. Search_loop
           (\<lambda>i. if i < length ps then Inr (x < X (ps ! i)) else Inl IndexOutOfRange) i j = Inr r
       \<and> i \<le> r \<and> r \<le> j \<and> (\<forall>k<r. \<not> x < X (ps ! k)) \<and> (r < length ps \<longrightarrow> x < X (ps ! r))"
proof (induction
    "\<lambda>i. if i < length ps then Inr (x < X (ps ! i)) else (Inl IndexOutOfRange :: error + bool)"
    i j rule: Search_loop.induct)
  case (1 i j)
  let ?f = "\<lambda>i. if i < length ps then Inr (x < X (ps ! i))
                 else (Inl IndexOutOfRange :: error + bool)"
  let ?h = "i + (j - i) div 2"
  show ?case
  proof (cases "i < j")
    case False
    with "1.prems" have "i = j" by simp
    with "1.prems" show ?thesis by (subst Search_loop.simps) simp
  next
    case True
    then have hj: "?h < j" and ih: "i \<le> ?h" by auto
    with "1.prems" have hlen: "?h < length ps" by simp
    then have fh: "?f ?h = Inr (x < X (ps ! ?h))" by simp
    show ?thesis
    proof (cases "x < X (ps ! ?h)")
      case lt: True
      have "\<exists>r. Search_loop ?f i ?h = Inr r \<and> i \<le> r \<and> r \<le> ?h \<and>
              (\<forall>k<r. \<not> x < X (ps ! k)) \<and> (r < length ps \<longrightarrow> x < X (ps ! r))"
        using "1.hyps"(2) [OF True fh] lt ih hlen "1.prems"(3) by simp
      then obtain r where r: "Search_loop ?f i ?h = Inr r" "i \<le> r" "r \<le> ?h"
        "\<forall>k<r. \<not> x < X (ps ! k)" "r < length ps \<longrightarrow> x < X (ps ! r)" by blast
      have "Search_loop ?f i j = Inr r"
        using True hlen lt r(1) by (subst Search_loop.simps) simp
      with r hj show ?thesis by auto
    next
      case ge: False
      have below: "\<forall>k<?h + 1. \<not> x < X (ps ! k)"
      proof (intro allI impI)
        fix k assume "k < ?h + 1"
        show "\<not> x < X (ps ! k)"
        proof (cases "k = ?h")
          case True
          with ge show ?thesis by simp
        next
          case False
          with \<open>k < ?h + 1\<close> have "k < ?h" by simp
          from sorted_by_X_nth [OF assms this hlen] have "X (ps ! k) \<le> X (ps ! ?h)" .
          then show ?thesis using ge float64_less_le_trans by blast
        qed
      qed
      have "\<exists>r. Search_loop ?f (?h + 1) j = Inr r \<and> ?h + 1 \<le> r \<and> r \<le> j \<and>
              (\<forall>k<r. \<not> x < X (ps ! k)) \<and> (r < length ps \<longrightarrow> x < X (ps ! r))"
        using "1.hyps"(1) [OF True fh] ge hj below "1.prems"(2,4) by simp
      then obtain r where r: "Search_loop ?f (?h + 1) j = Inr r" "?h + 1 \<le> r" "r \<le> j"
        "\<forall>k<r. \<not> x < X (ps ! k)" "r < length ps \<longrightarrow> x < X (ps ! r)" by blast
      have "Search_loop ?f i j = Inr r"
        using True hlen ge r(1) by (subst Search_loop.simps) simp
      with r ih show ?thesis by auto
    qed
  qed
qed

text \<open>
  C8: on points sorted ascending by x, \<open>SearchNextIndex x\<close> returns an index \<open>k\<close> at
  most \<open>Len\<close> such that no point before \<open>k\<close> has \<open>x\<close> below its abscissa and, when
  \<open>k\<close> is below \<open>Len\<close>, the point at \<open>k\<close> has: \<open>k\<close> is the leftmost index \<open>i\<close> with
  \<open>x < points[i].x\<close>, and \<open>Len\<close> when there is none. For points with the abscissas
  \<open>0, 1, 2, 3\<close> the index of \<open>1.5\<close> is \<open>2\<close> and the index of \<open>0\<close> is \<open>1\<close>.
\<close>

theorem SearchNextIndex_leftmost:
  "(sorted_by_X ps \<longrightarrow>
      (\<exists>k. SearchNextIndex ps x = Inr k \<and> k \<le> Len ps \<and>
           (\<forall>i<k. \<not> x < X (ps ! i)) \<and> (k < Len ps \<longrightarrow> x < X (ps ! k))))
   \<and> SearchNextIndex [NewPoint (Fin 0) y0, NewPoint (Fin 1) y1, NewPoint (Fin 2) y2,
                       NewPoint (Fin 3) y3] (Fin (3 / 2)) = Inr 2
   \<and> SearchNextIndex [NewPoint (Fin 0) y0, NewPoint (Fin 1) y1, NewPoint (Fin 2) y2,
                       NewPoint (Fin 3) y3] (Fin 0) = Inr 1"
proof (intro conjI impI)
  assume s: "sorted_by_X ps"
  from Search_loop_leftmost [OF s, of 0 "length ps" x]
  show "\<exists>k. SearchNextIndex ps x = Inr k \<and> k \<le> Len ps \<and>
           (\<forall>i<k. \<not> x < X (ps ! i)) \<and> (k < Len ps \<longrightarrow> x < X (ps ! k))"
    by (simp add: SearchNextIndex_def Search_def Len_def)
next
  show "SearchNextIndex [NewPoint (Fin 0) y0, NewPoint (Fin 1) y1, NewPoint (Fin 2) y2,
                         NewPoint (Fin 3) y3] (Fin (3 / 2)) = Inr 2"
    by (simp add: SearchNextIndex_def Search_def Search_loop.simps)
next
  show "SearchNextIndex [NewPoint (Fin 0) y0, NewPoint (Fin 1) y1, NewPoint (Fin 2) y2,
                         NewPoint (Fin 3) y3] (Fin 0) = Inr 1"
    by (simp add: SearchNextIndex_def Search_def Search_loop.simps)
qed

text \<open>The knots are sorted; the general statement at \<open>x = 1.5\<close>, where the index is \<open>2\<close>.\<close>

theorem SearchNextIndex_leftmost_witness:
  "sorted_by_X knots \<and>
   (\<exists>k. SearchNextIndex knots (Fin (3 / 2)) = Inr k \<and> k \<le> Len knots \<and>
        (\<forall>i<k. \<not> Fin (3 / 2) < X (knots ! i)) \<and>
        (k < Len knots \<longrightarrow> Fin (3 / 2) < X (knots ! k))) \<and>
   SearchNextIndex knots (Fin (3 / 2)) = Inr 2"
proof -
  have s: "sorted_by_X knots" by (simp add: knots_def)
  note t = SearchNextIndex_leftmost
    [where ps = knots and x = "Fin (3 / 2)" and ?y0.0 = "Fin 0" and ?y1.0 = "Fin 1"
       and ?y2.0 = "Fin 0" and ?y3.0 = "Fin 1"]
  from t s have a: "\<exists>k. SearchNextIndex knots (Fin (3 / 2)) = Inr k \<and> k \<le> Len knots \<and>
        (\<forall>i<k. \<not> Fin (3 / 2) < X (knots ! i)) \<and>
        (k < Len knots \<longrightarrow> Fin (3 / 2) < X (knots ! k))" by blast
  from t have b: "SearchNextIndex knots (Fin (3 / 2)) = Inr 2" by (simp add: knots_def)
  from s a b show ?thesis by blast
qed

section \<open>XInRange\<close>

lemma XInRange_total: "ps \<noteq> [] \<Longrightarrow> \<exists>r. XInRange ps x = Inr r"
  by (cases ps) (auto simp: XInRange_def split: prod.splits)

text \<open>
  The scan over abscissas that are not NaN: what it returns is at or below, respectively
  at or above, the start values and every abscissa scanned, and is one of them.
\<close>

lemma XInRange_loop_bounds:
  "a \<noteq> NaN \<Longrightarrow> b \<noteq> NaN \<Longrightarrow> \<forall>p\<in>set rest. X p \<noteq> NaN \<Longrightarrow>
   XInRange_loop rest a b = (mn, mx) \<Longrightarrow>
     (mn = a \<or> mn \<in> X ` set rest) \<and> mn \<le> a \<and> (\<forall>p\<in>set rest. mn \<le> X p) \<and>
     (mx = b \<or> mx \<in> X ` set rest) \<and> b \<le> mx \<and> (\<forall>p\<in>set rest. X p \<le> mx)"
proof (induction rest arbitrary: a b)
  case Nil
  then show ?case by (simp add: float64_le_refl)
next
  case (Cons p rest)
  let ?a = "if X p < a then X p else a"
  let ?b = "if X p > b then X p else b"
  from Cons.prems have p: "X p \<noteq> NaN" and rest: "\<forall>p\<in>set rest. X p \<noteq> NaN" by simp_all
  have a': "?a \<noteq> NaN" and b': "?b \<noteq> NaN" using Cons.prems(1,2) p by simp_all
  from Cons.prems(4) have run: "XInRange_loop rest ?a ?b = (mn, mx)" by simp
  from Cons.IH [OF a' b' rest run]
  have ih: "(mn = ?a \<or> mn \<in> X ` set rest)" "mn \<le> ?a" "\<forall>p\<in>set rest. mn \<le> X p"
    "(mx = ?b \<or> mx \<in> X ` set rest)" "?b \<le> mx" "\<forall>p\<in>set rest. X p \<le> mx" by simp_all
  have a_le: "?a \<le> a" "?a \<le> X p"
    using Cons.prems(1) p float64_not_less [of "X p" a] float64_less_imp_le [of "X p" a]
    by (auto simp: float64_le_refl)
  have b_ge: "b \<le> ?b" "X p \<le> ?b"
    using Cons.prems(2) p float64_not_less [of b "X p"] float64_less_imp_le [of b "X p"]
    by (auto simp: float64_le_refl)
  have "mn \<le> a" "mn \<le> X p" using ih(2) a_le float64_le_trans by blast+
  moreover have "b \<le> mx" "X p \<le> mx" using ih(5) b_ge float64_le_trans by blast+
  moreover have "mn = a \<or> mn \<in> X ` set (p # rest)" using ih(1) by (auto split: if_splits)
  moreover have "mx = b \<or> mx \<in> X ` set (p # rest)" using ih(4) by (auto split: if_splits)
  ultimately show ?case using ih(3,6) by simp
qed

lemma XInRange_least_greatest:
  assumes "ps \<noteq> []" "\<forall>p\<in>set ps. X p \<noteq> NaN"
  shows "\<exists>mn mx. least_X ps mn \<and> greatest_X ps mx \<and> XInRange ps x = Inr (mn \<le> x \<and> x \<le> mx)"
proof -
  from assms(1) obtain p0 rest where ps: "ps = p0 # rest" by (cases ps) auto
  obtain mn mx where run: "XInRange_loop rest (X p0) (X p0) = (mn, mx)" by force
  from assms(2) ps have "X p0 \<noteq> NaN" "\<forall>p\<in>set rest. X p \<noteq> NaN" by simp_all
  from XInRange_loop_bounds [OF this(1) this(1) this(2) run]
  have "least_X ps mn" "greatest_X ps mx"
    unfolding least_X_def greatest_X_def ps by auto
  moreover have "XInRange ps x = Inr (mn \<le> x \<and> x \<le> mx)"
    using ps run by (simp add: XInRange_def)
  ultimately show ?thesis by blast
qed

lemma least_X_unique: "least_X ps m \<Longrightarrow> least_X ps' m' \<Longrightarrow> set ps' = set ps \<Longrightarrow> m' = m"
  unfolding least_X_def by (auto intro!: float64_le_antisym)

lemma greatest_X_unique:
  "greatest_X ps m \<Longrightarrow> greatest_X ps' m' \<Longrightarrow> set ps' = set ps \<Longrightarrow> m' = m"
  unfolding greatest_X_def by (auto intro!: float64_le_antisym)

text \<open>
  C10, as the code has it: \<open>XInRange\<close> on the empty point set is an index panic, not
  \<open>false\<close>; on every point set that is not empty it returns a value. Where no abscissa
  is NaN (a NaN has no place in an order, so a least and a greatest abscissa exist only
  without one) the value is true exactly if \<open>min \<le> x \<le> max\<close> for the least and the
  greatest abscissa of the set, and every point sequence with the same set of points
  gives the same result, whatever its order.
\<close>

theorem XInRange_min_max:
  "XInRange [] x = Inl IndexOutOfRange \<and>
   (ps \<noteq> [] \<longrightarrow> (\<exists>r. XInRange ps x = Inr r)) \<and>
   (ps \<noteq> [] \<and> (\<forall>p\<in>set ps. X p \<noteq> NaN) \<longrightarrow>
      (\<exists>mn mx. least_X ps mn \<and> greatest_X ps mx \<and>
         XInRange ps x = Inr (mn \<le> x \<and> x \<le> mx) \<and>
         (\<forall>ps'. set ps' = set ps \<longrightarrow> XInRange ps' x = XInRange ps x)))"
proof (intro conjI impI)
  show "XInRange [] x = Inl IndexOutOfRange" by (simp add: XInRange_def)
next
  assume "ps \<noteq> []"
  then show "\<exists>r. XInRange ps x = Inr r" by (rule XInRange_total)
next
  assume a: "ps \<noteq> [] \<and> (\<forall>p\<in>set ps. X p \<noteq> NaN)"
  from XInRange_least_greatest [of ps x] a obtain mn mx where
    m: "least_X ps mn" "greatest_X ps mx" "XInRange ps x = Inr (mn \<le> x \<and> x \<le> mx)" by blast
  have "XInRange ps' x = XInRange ps x" if eq: "set ps' = set ps" for ps'
  proof -
    from eq a have "ps' \<noteq> []" "\<forall>p\<in>set ps'. X p \<noteq> NaN" by auto
    from XInRange_least_greatest [OF this, of x] obtain mn' mx' where
      m': "least_X ps' mn'" "greatest_X ps' mx'" "XInRange ps' x = Inr (mn' \<le> x \<and> x \<le> mx')"
      by blast
    from least_X_unique [OF m(1) m'(1) eq] greatest_X_unique [OF m(2) m'(2) eq] m(3) m'(3)
    show ?thesis by simp
  qed
  with m show "\<exists>mn mx. least_X ps mn \<and> greatest_X ps mx \<and>
         XInRange ps x = Inr (mn \<le> x \<and> x \<le> mx) \<and>
         (\<forall>ps'. set ps' = set ps \<longrightarrow> XInRange ps' x = XInRange ps x)" by blast
qed

text \<open>Three points out of order, with the abscissas \<open>2, 0, 3\<close>, and \<open>x = 1\<close>.\<close>

theorem XInRange_min_max_witness:
  "[NewPoint (Fin 2) (Fin 0), NewPoint (Fin 0) (Fin 0), NewPoint (Fin 3) (Fin 0)] \<noteq> [] \<and>
   NaN \<notin> X ` set [NewPoint (Fin 2) (Fin 0), NewPoint (Fin 0) (Fin 0), NewPoint (Fin 3) (Fin 0)] \<and>
   least_X [NewPoint (Fin 2) (Fin 0), NewPoint (Fin 0) (Fin 0), NewPoint (Fin 3) (Fin 0)] (Fin 0) \<and>
   greatest_X [NewPoint (Fin 2) (Fin 0), NewPoint (Fin 0) (Fin 0), NewPoint (Fin 3) (Fin 0)] (Fin 3) \<and>
   XInRange [NewPoint (Fin 2) (Fin 0), NewPoint (Fin 0) (Fin 0), NewPoint (Fin 3) (Fin 0)] (Fin 1)
     = Inr True \<and>
   XInRange [NewPoint (Fin 3) (Fin 0), NewPoint (Fin 2) (Fin 0), NewPoint (Fin 0) (Fin 0)] (Fin 1)
     = Inr True"
proof -
  let ?ps = "[NewPoint (Fin 2) (Fin 0), NewPoint (Fin 0) (Fin 0), NewPoint (Fin 3) (Fin 0)]"
  let ?ps' = "[NewPoint (Fin 3) (Fin 0), NewPoint (Fin 2) (Fin 0), NewPoint (Fin 0) (Fin 0)]"
  have h: "?ps \<noteq> [] \<and> (\<forall>p\<in>set ?ps. X p \<noteq> NaN)" by simp
  have l: "least_X ?ps (Fin 0)" and g: "greatest_X ?ps (Fin 3)"
    by (simp_all add: least_X_def greatest_X_def)
  from XInRange_min_max [of "Fin 1" ?ps] h obtain mn mx where
    m: "least_X ?ps mn" "greatest_X ?ps mx" "XInRange ?ps (Fin 1) = Inr (mn \<le> Fin 1 \<and> Fin 1 \<le> mx)"
    "\<forall>ps'. set ps' = set ?ps \<longrightarrow> XInRange ps' (Fin 1) = XInRange ?ps (Fin 1)" by blast
  from least_X_unique [OF l m(1)] greatest_X_unique [OF g m(2)] m(3)
  have r: "XInRange ?ps (Fin 1) = Inr True" by simp
  have "set ?ps' = set ?ps" by auto
  with m(4) r have "XInRange ?ps' (Fin 1) = Inr True" by simp
  with h l g r show ?thesis by simp
qed

text \<open>
  With a NaN abscissa the order of the points decides. A NaN in front is taken for both
  bounds and no comparison holds, for any \<open>x\<close>; the same points reversed bound \<open>0.5\<close>
  by \<open>0\<close> and \<open>1\<close>.
\<close>

theorem XInRange_NaN_order:
  "XInRange [NewPoint NaN (Fin 0), NewPoint (Fin 0) (Fin 0), NewPoint (Fin 1) (Fin 0)]
     (Fin (1 / 2)) = Inr False \<and>
   XInRange (rev [NewPoint NaN (Fin 0), NewPoint (Fin 0) (Fin 0), NewPoint (Fin 1) (Fin 0)])
     (Fin (1 / 2)) = Inr True"
  by (simp add: XInRange_def)

section \<open>NewCubicSplineFunction never panics\<close>

lemma differences_loop_total:
  "intervals < length ps \<Longrightarrow> length differences = intervals \<Longrightarrow>
   \<exists>r. differences_loop ps intervals i differences = Inr r \<and> length r = intervals"
proof (induction ps intervals i differences rule: differences_loop.induct)
  case (1 ps intervals i differences)
  show ?case
  proof (cases "i < intervals")
    case True
    with "1.prems" have g: "i + 1 < length ps \<and> i < length differences" by simp
    from "1.IH" [OF True g "1.prems"(1)] "1.prems"(2) True g show ?thesis
      by (subst differences_loop.simps) simp
  next
    case False
    with "1.prems" show ?thesis by (subst differences_loop.simps) simp
  qed
qed

lemma elimination_loop_total:
  "1 \<le> i \<Longrightarrow> intervals < length ps \<Longrightarrow> length differences = intervals \<Longrightarrow>
   length mu = intervals \<Longrightarrow> length z = length ps \<Longrightarrow>
   \<exists>mu' z'. elimination_loop ps differences intervals i mu z = Inr (mu', z') \<and>
       length mu' = intervals \<and> length z' = length ps"
proof (induction ps differences intervals i mu z rule: elimination_loop.induct)
  case (1 ps differences intervals i mu z)
  show ?case
  proof (cases "i < intervals")
    case True
    with "1.prems" have g: "1 \<le> i \<and> i + 1 < length ps \<and> i < length differences \<and>
       i < length mu \<and> i < length z" by simp
    have "1 \<le> i + 1" by simp
    from "1.IH" [OF True g refl this "1.prems"(2,3)] "1.prems"(4,5) True g show ?thesis
      by (subst elimination_loop.simps) (simp add: Let_def)
  next
    case False
    with "1.prems" show ?thesis by (subst elimination_loop.simps) simp
  qed
qed

lemma substitution_loop_total:
  "k \<le> intervals \<Longrightarrow> intervals < length ps \<Longrightarrow> length differences = intervals \<Longrightarrow>
   length mu = intervals \<Longrightarrow> length z = length ps \<Longrightarrow> length b = intervals \<Longrightarrow>
   length c = length ps \<Longrightarrow> length d = intervals \<Longrightarrow>
   \<exists>b' c' d'. substitution_loop ps differences mu z k b c d = Inr (b', c', d') \<and>
       length b' = intervals \<and> length c' = length ps \<and> length d' = intervals"
proof (induction k arbitrary: b c d)
  case 0
  then show ?case by simp
next
  case (Suc k)
  then show ?case by (simp add: Let_def)
qed

lemma length4: "length xs = 4 \<Longrightarrow> \<exists>a0 a1 a2 a3. xs = [a0, a1, a2, a3]"
  by (cases xs; simp; cases "tl xs"; simp; cases "tl (tl xs)"; simp;
      cases "tl (tl (tl xs))"; simp)

lemma store4:
  assumes "cs < length h" "length (h ! cs) = 4"
  shows "store (store (store (store h cs 0 v0) cs 1 v1) cs 2 v2) cs 3 v3 =
           h[cs := [v0, v1, v2, v3]]"
proof -
  from length4 [OF assms(2)] obtain a0 a1 a2 a3 where "h ! cs = [a0, a1, a2, a3]" by blast
  with assms(1) show ?thesis by (simp add: store_def)
qed

text \<open>
  The loop that builds the polynomials, from iteration \<open>i\<close> on: it changes the store at
  \<open>cs\<close> only, every polynomial it assigns holds the slice \<open>cs\<close>, and the array at \<open>cs\<close>
  ends as the last iteration wrote it.
\<close>

lemma polynomials_loop_result:
  "i \<le> intervals \<Longrightarrow> intervals \<le> length ps \<Longrightarrow> length b = intervals \<Longrightarrow>
   intervals \<le> length c \<Longrightarrow> length d = intervals \<Longrightarrow> cs < length h \<Longrightarrow>
   length (h ! cs) = 4 \<Longrightarrow> length polys = intervals \<Longrightarrow>
   \<exists>polys' arr. polynomials_loop h ps b c d cs intervals i polys = Inr (polys', h[cs := arr]) \<and>
      length arr = 4 \<and> length polys' = intervals \<and>
      (\<forall>j<intervals. i \<le> j \<longrightarrow> polys' ! j = Some (PolynomialFunction cs)) \<and>
      (\<forall>j<i. polys' ! j = polys ! j) \<and>
      (i < intervals \<longrightarrow> arr = [Y (ps ! (intervals - 1)), b ! (intervals - 1),
                                 c ! (intervals - 1), d ! (intervals - 1)]) \<and>
      (\<not> i < intervals \<longrightarrow> arr = h ! cs)"
proof (induction h ps b c d cs intervals i polys rule: polynomials_loop.induct)
  case (1 h ps b c d cs intervals i polys)
  show ?case
  proof (cases "i < intervals")
    case False
    with "1.prems" show ?thesis by (subst polynomials_loop.simps) simp
  next
    case True
    let ?arr = "[Y (ps ! i), b ! i, c ! i, d ! i]"
    let ?h3 = "h[cs := ?arr]"
    let ?polys = "polys[i := Some (PolynomialFunction cs)]"
    have sl: "slice_at h cs = h ! cs" using "1.prems"(6) by (simp add: slice_at_def)
    have g: "i < length ps \<and> i < length b \<and> i < length c \<and> i < length d \<and>
       3 < length (slice_at h cs) \<and> i < length polys"
      using True "1.prems" sl by simp
    have h3: "store (store (store (store h cs 0 (Y (ps ! i))) cs 1 (b ! i)) cs 2 (c ! i))
                cs 3 (d ! i) = ?h3"
      using "1.prems"(6,7) by (rule store4)
    have new: "NewPolynomialFunction ?h3 cs = Some (PolynomialFunction cs)"
      using "1.prems"(6) by (simp add: NewPolynomialFunction_def slice_at_def)
    have step: "polynomials_loop h ps b c d cs intervals i polys =
                polynomials_loop ?h3 ps b c d cs intervals (i + 1) ?polys"
      using True g h3 new by (subst polynomials_loop.simps) (simp add: Let_def)
    have "\<exists>polys' arr. polynomials_loop ?h3 ps b c d cs intervals (i + 1) ?polys =
            Inr (polys', ?h3[cs := arr]) \<and>
      length arr = 4 \<and> length polys' = intervals \<and>
      (\<forall>j<intervals. i + 1 \<le> j \<longrightarrow> polys' ! j = Some (PolynomialFunction cs)) \<and>
      (\<forall>j<i + 1. polys' ! j = ?polys ! j) \<and>
      (i + 1 < intervals \<longrightarrow> arr = [Y (ps ! (intervals - 1)), b ! (intervals - 1),
                                 c ! (intervals - 1), d ! (intervals - 1)]) \<and>
      (\<not> i + 1 < intervals \<longrightarrow> arr = ?h3 ! cs)"
      using "1.IH" [OF True g refl refl refl refl] h3 new True "1.prems" by simp
    then obtain polys' arr where r:
      "polynomials_loop ?h3 ps b c d cs intervals (i + 1) ?polys = Inr (polys', ?h3[cs := arr])"
      "length arr = 4" "length polys' = intervals"
      "\<forall>j<intervals. i + 1 \<le> j \<longrightarrow> polys' ! j = Some (PolynomialFunction cs)"
      "\<forall>j<i + 1. polys' ! j = ?polys ! j"
      "i + 1 < intervals \<longrightarrow> arr = [Y (ps ! (intervals - 1)), b ! (intervals - 1),
                                 c ! (intervals - 1), d ! (intervals - 1)]"
      "\<not> i + 1 < intervals \<longrightarrow> arr = ?h3 ! cs" by blast
    have a: "polynomials_loop h ps b c d cs intervals i polys = Inr (polys', h[cs := arr])"
      using step r(1) by simp
    have b: "\<forall>j<intervals. i \<le> j \<longrightarrow> polys' ! j = Some (PolynomialFunction cs)"
    proof (intro allI impI)
      fix j assume j: "j < intervals" "i \<le> j"
      show "polys' ! j = Some (PolynomialFunction cs)"
      proof (cases "j = i")
        case True
        with r(5) g show ?thesis by simp
      next
        case False
        with j r(4) show ?thesis by simp
      qed
    qed
    have c: "\<forall>j<i. polys' ! j = polys ! j" using r(5) by simp
    have d: "arr = [Y (ps ! (intervals - 1)), b ! (intervals - 1),
                    c ! (intervals - 1), d ! (intervals - 1)]"
    proof (cases "i + 1 < intervals")
      case True
      with r(6) show ?thesis by simp
    next
      case False
      with True have "intervals - 1 = i" by simp
      with False r(7) "1.prems"(6) show ?thesis by simp
    qed
    from a r(2,3) b c d True show ?thesis by blast
  qed
qed

text \<open>
  For three or more points the constructor returns a function: one polynomial for each
  interval, every one of them holding the one slice allocated by the call.
\<close>

lemma NewCubicSplineFunction_result:
  assumes "3 \<le> Len ps"
  shows "\<exists>arr. NewCubicSplineFunction h ps =
           Inr (Some \<lparr>polynomials =
                        replicate (Len ps - 1) (Some (PolynomialFunction (length h))),
                      points = ps\<rparr>, h @ [arr]) \<and> length arr = 4"
proof -
  let ?n = "length ps" and ?m = "length ps - 1"
  from assms have n: "3 \<le> ?n" "?m < ?n" by (simp_all add: Len_def)
  obtain differences where 1:
    "differences_loop ps ?m 0 (replicate ?m (Fin 0)) = Inr differences"
    "length differences = ?m"
    using differences_loop_total [of ?m ps "replicate ?m (Fin 0)" 0] n by auto
  obtain mu z where 2:
    "elimination_loop ps differences ?m 1 (replicate ?m (Fin 0)) (replicate ?n (Fin 0)) =
       Inr (mu, z)"
    "length mu = ?m" "length z = ?n"
    using elimination_loop_total
      [of 1 ?m ps differences "replicate ?m (Fin 0)" "replicate ?n (Fin 0)"] n 1(2)
    by auto
  obtain b c d where 3:
    "substitution_loop ps differences mu z ?m (replicate ?m (Fin 0)) (replicate ?n (Fin 0))
       (replicate ?m (Fin 0)) = Inr (b, c, d)"
    "length b = ?m" "length c = ?n" "length d = ?m"
    using substitution_loop_total
      [of ?m ?m ps differences mu z "replicate ?m (Fin 0)" "replicate ?n (Fin 0)"
         "replicate ?m (Fin 0)"] n 1(2) 2(2,3)
    by auto
  let ?h' = "h @ [replicate 4 (Fin 0)]"
  have "\<exists>polys' arr.
      polynomials_loop ?h' ps b c d (length h) ?m 0 (replicate ?m None) =
        Inr (polys', ?h'[length h := arr]) \<and>
      length arr = 4 \<and> length polys' = ?m \<and>
      (\<forall>j<?m. 0 \<le> j \<longrightarrow> polys' ! j = Some (PolynomialFunction (length h))) \<and>
      (\<forall>j<0. polys' ! j = replicate ?m None ! j) \<and>
      (0 < ?m \<longrightarrow> arr = [Y (ps ! (?m - 1)), b ! (?m - 1), c ! (?m - 1), d ! (?m - 1)]) \<and>
      (\<not> 0 < ?m \<longrightarrow> arr = ?h' ! length h)"
    using n 3(2,3,4) by (intro polynomials_loop_result) simp_all
  then obtain polys' arr where 4:
    "polynomials_loop ?h' ps b c d (length h) ?m 0 (replicate ?m None) =
       Inr (polys', ?h'[length h := arr])"
    "length arr = 4" "length polys' = ?m"
    "\<forall>j<?m. polys' ! j = Some (PolynomialFunction (length h))" by auto
  have polys: "polys' = replicate ?m (Some (PolynomialFunction (length h)))"
    using 4(3,4) by (intro nth_equalityI) simp_all
  have "NewCubicSplineFunction h ps =
          Inr (Some \<lparr>polynomials = polys', points = ps\<rparr>, h @ [arr])"
    using n 1(1) 2(1) 3(1) 4(1)
    by (simp add: NewCubicSplineFunction_def Len_def make_float64s_def Let_def)
  with polys 4(2) show ?thesis by (auto simp: Len_def)
qed

lemma NewCubicSplineFunction_nil: "Len ps < 3 \<Longrightarrow> NewCubicSplineFunction h ps = Inr (None, h)"
  by (simp add: NewCubicSplineFunction_def)

section \<open>CubicSplineFunction.Eval inside and outside the range\<close>

lemma CubicSplineFunction_Eval_out:
  "XInRange (points csf) x = Inr False \<Longrightarrow> CubicSplineFunction_Eval h csf x = Inl XOutOfRange"
  by (simp add: CubicSplineFunction_Eval_def)

lemma CubicSplineFunction_Eval_in:
  assumes "XInRange (points csf) x = Inr True"
    and "polynomials csf = replicate m (Some pf)" "0 < m" "m \<le> length (points csf)"
    and "slice_at h (coefficients pf) \<noteq> []"
  shows "\<exists>v. CubicSplineFunction_Eval h csf x = Inr v"
proof -
  obtain found where f: "SearchNextIndex (points csf) x = Inr found"
    using SearchNextIndex_total by blast
  define k where "k = (if m \<le> found then m - 1 else found)"
  have k: "k < m" using assms(3) by (simp add: k_def)
  have x0: "XAt (points csf) k = Inr (X (points csf ! k))"
    using k assms(4) by (simp add: XAt_def)
  have p: "replicate m (Some pf) ! k = Some pf" using k by simp
  have "CubicSplineFunction_Eval h csf x =
          PolynomialFunction_Eval h pf (x - X (points csf ! k))"
  proof (cases "m \<le> found")
    case True
    then have "k = m - 1" by (simp add: k_def)
    with True assms(1,2,3) f x0 p show ?thesis
      by (simp add: CubicSplineFunction_Eval_def Let_def nat_diff_distrib'
          del: replicate.simps)
  next
    case False
    then have "k = found" by (simp add: k_def)
    with False assms(1,2,3) f x0 p show ?thesis
      by (simp add: CubicSplineFunction_Eval_def Let_def del: replicate.simps)
  qed
  with PolynomialFunction_Eval_total [OF assms(5)] show ?thesis by simp
qed

section \<open>The spline of the knots (0,0), (1,1), (2,0), (3,1)\<close>

lemma knots_differences:
  "differences_loop knots 3 0 [Fin 0, Fin 0, Fin 0] = Inr [Fin 1, Fin 1, Fin 1]"
  by (simp add: knots_def differences_loop.simps minus_float64_def)

lemma knots_elimination:
  "elimination_loop knots [Fin 1, Fin 1, Fin 1] 3 1 [Fin 0, Fin 0, Fin 0]
      [Fin 0, Fin 0, Fin 0, Fin 0] =
     Inr ([Fin 0, Fin (1 / 4), Fin (4 / 15)], [Fin 0, Fin (- (3 / 2)), Fin 2, Fin 0])"
  by (simp add: knots_def elimination_loop.simps minus_float64_def Let_def)

lemma knots_substitution:
  "substitution_loop knots [Fin 1, Fin 1, Fin 1] [Fin 0, Fin (1 / 4), Fin (4 / 15)]
      [Fin 0, Fin (- (3 / 2)), Fin 2, Fin 0] 3 [Fin 0, Fin 0, Fin 0]
      [Fin 0, Fin 0, Fin 0, Fin 0] [Fin 0, Fin 0, Fin 0] =
     Inr ([Fin (5 / 3), Fin (- (1 / 3)), Fin (- (1 / 3))], [Fin 0, Fin (- 2), Fin 2, Fin 0],
          [Fin (- (2 / 3)), Fin (4 / 3), Fin (- (2 / 3))])"
  by (simp add: knots_def numeral_3_eq_3 minus_float64_def Let_def)

lemma knots_polynomials:
  "polynomials_loop [[Fin 0, Fin 0, Fin 0, Fin 0]] knots
      [Fin (5 / 3), Fin (- (1 / 3)), Fin (- (1 / 3))] [Fin 0, Fin (- 2), Fin 2, Fin 0]
      [Fin (- (2 / 3)), Fin (4 / 3), Fin (- (2 / 3))] 0 3 0 [None, None, None] =
     Inr (polynomials knots_spline, knots_heap)"
  by (simp add: knots_def knots_spline_def knots_heap_def polynomials_loop.simps store_def
      slice_at_def NewPolynomialFunction_def Let_def)

lemma knots_NewCubicSplineFunction:
  "NewCubicSplineFunction [] knots = Inr (Some knots_spline, knots_heap)"
proof -
  have len: "Len knots = 4" by (simp add: knots_def Len_def)
  have r3: "replicate 3 x = [x, x, x]" and r4: "replicate 4 x = [x, x, x, x]" for x :: 'a
    by (simp_all add: numeral_3_eq_3 eval_nat_numeral)
  show ?thesis
    unfolding NewCubicSplineFunction_def len
    using knots_polynomials
    by (simp add: r3 r4 knots_differences knots_elimination [unfolded One_nat_def]
        knots_substitution make_float64s_def knots_spline_def)
qed

lemma knots_XInRange: "XInRange knots (Fin a) = Inr (0 \<le> a \<and> a \<le> 3)"
  by (simp add: knots_def XInRange_def)

lemma knots_Eval:
  "CubicSplineFunction_Eval knots_heap knots_spline (Fin 0) = Inr (Fin 3)"
  "CubicSplineFunction_Eval knots_heap knots_spline (Fin 1) = Inr (Fin 3)"
  "CubicSplineFunction_Eval knots_heap knots_spline (Fin 2) = Inr (Fin 0)"
  "CubicSplineFunction_Eval knots_heap knots_spline (Fin 3) = Inr (Fin 1)"
  by (simp_all add: CubicSplineFunction_Eval_def knots_spline_def knots_heap_def knots_def
      XInRange_def SearchNextIndex_def Search_def Search_loop.simps XAt_def
      PolynomialFunction_Eval_def slice_at_def minus_float64_def Let_def numeral_3_eq_3)

text \<open>
  C1: the spline constructed from the knots \<open>(0,0), (1,1), (2,0), (3,1)\<close>, evaluated at
  the four knot abscissas. \<open>Eval\<close> returns \<open>3\<close> at \<open>0\<close> and \<open>3\<close> at \<open>1\<close>, where the
  knots have the ordinates \<open>0\<close> and \<open>1\<close>; at \<open>2\<close> and at \<open>3\<close> it returns the ordinates
  \<open>0\<close> and \<open>1\<close>. (\<open>SearchNextIndex\<close> is the index of the knot after \<open>x\<close>, and \<open>Eval\<close>
  takes the polynomial and the local origin at that index, not at the one before; every
  polynomial holds the coefficients of the last interval.)
\<close>

theorem knots_spline_Eval_at_knots:
  "map X knots = [Fin 0, Fin 1, Fin 2, Fin 3] \<and> map Y knots = [Fin 0, Fin 1, Fin 0, Fin 1] \<and>
   NewCubicSplineFunction [] knots = Inr (Some knots_spline, knots_heap) \<and>
   CubicSplineFunction_Eval knots_heap knots_spline (Fin 0) = Inr (Fin 3) \<and>
   CubicSplineFunction_Eval knots_heap knots_spline (Fin 1) = Inr (Fin 3) \<and>
   CubicSplineFunction_Eval knots_heap knots_spline (Fin 2) = Inr (Fin 0) \<and>
   CubicSplineFunction_Eval knots_heap knots_spline (Fin 3) = Inr (Fin 1)"
  using knots_NewCubicSplineFunction knots_Eval by (simp add: knots_def)

text \<open>
  C2: for the knots \<open>(0,0), (1,1), (2,0), (3,1)\<close> the back substitution leaves
  \<open>b = [5/3, -1/3, -1/3]\<close>, \<open>c = [0, -2, 2, 0]\<close> and \<open>d = [-2/3, 4/3, -2/3]\<close>, and
  the polynomials stored for the intervals \<open>0\<close>, \<open>1\<close> and \<open>2\<close> all read the
  coefficients \<open>[0, -1/3, 2, -2/3]\<close>, those of interval \<open>2\<close>: the three hold one
  slice, which the loop overwrites. The polynomial of interval \<open>1\<close> has the constant \<open>0\<close>
  where \<open>y[1]\<close> is \<open>1\<close>.
\<close>

theorem knots_spline_polynomials_share_coefficients:
  "NewCubicSplineFunction [] knots = Inr (Some knots_spline, knots_heap) \<and>
   substitution_loop knots [Fin 1, Fin 1, Fin 1] [Fin 0, Fin (1 / 4), Fin (4 / 15)]
      [Fin 0, Fin (- (3 / 2)), Fin 2, Fin 0] 3 [Fin 0, Fin 0, Fin 0]
      [Fin 0, Fin 0, Fin 0, Fin 0] [Fin 0, Fin 0, Fin 0] =
     Inr ([Fin (5 / 3), Fin (- (1 / 3)), Fin (- (1 / 3))], [Fin 0, Fin (- 2), Fin 2, Fin 0],
          [Fin (- (2 / 3)), Fin (4 / 3), Fin (- (2 / 3))]) \<and>
   map (map_option (\<lambda>pf. slice_at knots_heap (coefficients pf))) (polynomials knots_spline) =
     [Some [Fin 0, Fin (- (1 / 3)), Fin 2, Fin (- (2 / 3))],
      Some [Fin 0, Fin (- (1 / 3)), Fin 2, Fin (- (2 / 3))],
      Some [Fin 0, Fin (- (1 / 3)), Fin 2, Fin (- (2 / 3))]] \<and>
   YAt knots 1 = Inr (Fin 1)"
proof -
  have "map (map_option (\<lambda>pf. slice_at knots_heap (coefficients pf)))
          (polynomials knots_spline) =
     [Some [Fin 0, Fin (- (1 / 3)), Fin 2, Fin (- (2 / 3))],
      Some [Fin 0, Fin (- (1 / 3)), Fin 2, Fin (- (2 / 3))],
      Some [Fin 0, Fin (- (1 / 3)), Fin 2, Fin (- (2 / 3))]]"
    by (simp add: knots_spline_def knots_heap_def slice_at_def)
  moreover have "YAt knots 1 = Inr (Fin 1)" by (simp add: YAt_def knots_def)
  ultimately show ?thesis using knots_NewCubicSplineFunction knots_substitution by simp
qed

text \<open>
  C3: for a function \<open>csf\<close> that \<open>NewCubicSplineFunction\<close> constructed from the points
  \<open>ps\<close>, these are its points, \<open>XInRange\<close> over them returns a value, and \<open>Eval x\<close> is
  the panic "X out of range!" where \<open>XInRange x\<close> is false and a value, with no panic,
  where it is true. The spline of the knots \<open>(0,0), (1,1), (2,0), (3,1)\<close> panics so at
  \<open>-0.5\<close> and at \<open>3.5\<close>.
\<close>

theorem CubicSplineFunction_Eval_domain:
  "(NewCubicSplineFunction h ps = Inr (Some csf, h') \<longrightarrow>
      points csf = ps \<and> (\<exists>inside. XInRange (points csf) x = Inr inside) \<and>
      (XInRange (points csf) x = Inr False \<longrightarrow>
         CubicSplineFunction_Eval h' csf x = Inl XOutOfRange) \<and>
      (XInRange (points csf) x = Inr True \<longrightarrow>
         (\<exists>v. CubicSplineFunction_Eval h' csf x = Inr v)))
   \<and> (\<exists>csf h'. NewCubicSplineFunction [] knots = Inr (Some csf, h') \<and>
         CubicSplineFunction_Eval h' csf (Fin (- (1 / 2))) = Inl XOutOfRange \<and>
         CubicSplineFunction_Eval h' csf (Fin (7 / 2)) = Inl XOutOfRange)"
proof (intro conjI impI)
  assume new: "NewCubicSplineFunction h ps = Inr (Some csf, h')"
  have len: "3 \<le> Len ps"
  proof (rule ccontr)
    assume "\<not> 3 \<le> Len ps"
    then have "NewCubicSplineFunction h ps = Inr (None, h)"
      by (simp add: NewCubicSplineFunction_nil)
    with new show False by simp
  qed
  from NewCubicSplineFunction_result [OF len, of h] new obtain arr where
    csf: "csf = \<lparr>polynomials = replicate (Len ps - 1) (Some (PolynomialFunction (length h))),
                 points = ps\<rparr>"
    and h': "h' = h @ [arr]" and arr: "length arr = 4" by auto
  show pts: "points csf = ps" by (simp add: csf)
  from len have ne: "ps \<noteq> []" by (auto simp: Len_def)
  from XInRange_total [OF ne] pts show "\<exists>inside. XInRange (points csf) x = Inr inside"
    by simp
  {
    assume "XInRange (points csf) x = Inr False"
    then show "CubicSplineFunction_Eval h' csf x = Inl XOutOfRange"
      by (rule CubicSplineFunction_Eval_out)
  }
  {
    assume inside: "XInRange (points csf) x = Inr True"
    have p: "polynomials csf = replicate (Len ps - 1) (Some (PolynomialFunction (length h)))"
      by (simp add: csf)
    have m: "0 < Len ps - 1" "Len ps - 1 \<le> length (points csf)"
      using len pts by (simp_all add: Len_def)
    have sl: "slice_at h' (coefficients (PolynomialFunction (length h))) \<noteq> []"
      using arr by (auto simp: h' slice_at_def)
    from CubicSplineFunction_Eval_in [OF inside p m sl]
    show "\<exists>v. CubicSplineFunction_Eval h' csf x = Inr v" .
  }
next
  have p: "points knots_spline = knots" by (simp add: knots_spline_def)
  have "CubicSplineFunction_Eval knots_heap knots_spline (Fin (- (1 / 2))) = Inl XOutOfRange"
    "CubicSplineFunction_Eval knots_heap knots_spline (Fin (7 / 2)) = Inl XOutOfRange"
    by (rule CubicSplineFunction_Eval_out, simp add: p knots_XInRange)+
  with knots_NewCubicSplineFunction
  show "\<exists>csf h'. NewCubicSplineFunction [] knots = Inr (Some csf, h') \<and>
         CubicSplineFunction_Eval h' csf (Fin (- (1 / 2))) = Inl XOutOfRange \<and>
         CubicSplineFunction_Eval h' csf (Fin (7 / 2)) = Inl XOutOfRange" by blast
qed

text \<open>The spline of the knots at \<open>0.5\<close>, inside the range, and at \<open>4\<close>, outside.\<close>

theorem CubicSplineFunction_Eval_domain_witness:
  "NewCubicSplineFunction [] knots = Inr (Some knots_spline, knots_heap) \<and>
   XInRange (points knots_spline) (Fin (1 / 2)) = Inr True \<and>
   (\<exists>v. CubicSplineFunction_Eval knots_heap knots_spline (Fin (1 / 2)) = Inr v) \<and>
   XInRange (points knots_spline) (Fin 4) = Inr False \<and>
   CubicSplineFunction_Eval knots_heap knots_spline (Fin 4) = Inl XOutOfRange"
proof -
  note new = knots_NewCubicSplineFunction
  have p: "points knots_spline = knots" by (simp add: knots_spline_def)
  have inside: "XInRange (points knots_spline) (Fin (1 / 2)) = Inr True"
    and outside: "XInRange (points knots_spline) (Fin 4) = Inr False"
    by (simp_all add: p knots_XInRange)
  from CubicSplineFunction_Eval_domain
    [where h = "[]" and ps = knots and csf = knots_spline and h' = knots_heap
       and x = "Fin (1 / 2)"] new inside
  have a: "\<exists>v. CubicSplineFunction_Eval knots_heap knots_spline (Fin (1 / 2)) = Inr v" by blast
  from CubicSplineFunction_Eval_domain
    [where h = "[]" and ps = knots and csf = knots_spline and h' = knots_heap
       and x = "Fin 4"] new outside
  have b: "CubicSplineFunction_Eval knots_heap knots_spline (Fin 4) = Inl XOutOfRange" by blast
  from new inside a outside b show ?thesis by blast
qed

section \<open>Constructors that return nil\<close>

text \<open>
  C9: \<open>NewPolynomialFunction\<close> returns nil exactly if the coefficient slice is empty,
  and for one or more coefficients a polynomial function that holds them and that
  \<open>Eval\<close> evaluates without a panic. \<open>NewCubicSplineFunction\<close> returns without a panic
  for every point set, and returns nil exactly if the set has fewer than three points.
\<close>

theorem constructors_nil:
  "(NewPolynomialFunction h cs = None) = (slice_at h cs = []) \<and>
   (slice_at h cs \<noteq> [] \<longrightarrow>
      (\<exists>pf. NewPolynomialFunction h cs = Some pf \<and>
            slice_at h (coefficients pf) = slice_at h cs \<and>
            (\<exists>v. PolynomialFunction_Eval h pf x = Inr v))) \<and>
   (\<exists>r h'. NewCubicSplineFunction h ps = Inr (r, h') \<and> (r = None) = (Len ps < 3))"
proof (intro conjI impI)
  show "(NewPolynomialFunction h cs = None) = (slice_at h cs = [])"
    by (auto simp: NewPolynomialFunction_def)
next
  assume ne: "slice_at h cs \<noteq> []"
  then have "slice_at h (coefficients (PolynomialFunction cs)) \<noteq> []" by simp
  from PolynomialFunction_Eval_total [OF this, of x] ne
  show "\<exists>pf. NewPolynomialFunction h cs = Some pf \<and>
            slice_at h (coefficients pf) = slice_at h cs \<and>
            (\<exists>v. PolynomialFunction_Eval h pf x = Inr v)"
    by (auto simp: NewPolynomialFunction_def)
next
  show "\<exists>r h'. NewCubicSplineFunction h ps = Inr (r, h') \<and> (r = None) = (Len ps < 3)"
  proof (cases "Len ps < 3")
    case True
    then show ?thesis by (simp add: NewCubicSplineFunction_nil)
  next
    case False
    then have "3 \<le> Len ps" by simp
    from NewCubicSplineFunction_result [OF this, of h] False show ?thesis by auto
  qed
qed

text \<open>
  A slice of one coefficient and the empty (nil) slice; the four knots and the first two
  of them.
\<close>

theorem constructors_nil_witness:
  "slice_at [[Fin 1]] 0 \<noteq> [] \<and>
   NewPolynomialFunction [[Fin 1]] 0 = Some (PolynomialFunction 0) \<and>
   (\<exists>v. PolynomialFunction_Eval [[Fin 1]] (PolynomialFunction 0) (Fin 2) = Inr v) \<and>
   NewPolynomialFunction [] 0 = None \<and>
   NewCubicSplineFunction [] knots = Inr (Some knots_spline, knots_heap) \<and>
   NewCubicSplineFunction [] (take 2 knots) = Inr (None, [])"
proof -
  have ne: "slice_at [[Fin 1]] 0 \<noteq> []" by (simp add: slice_at_def)
  note t = constructors_nil [where h = "[[Fin 1]]" and cs = 0 and x = "Fin 2"]
  from t ne have a: "NewPolynomialFunction [[Fin 1]] 0 = Some (PolynomialFunction 0)"
    by (auto simp: NewPolynomialFunction_def)
  from t ne a have b: "\<exists>v. PolynomialFunction_Eval [[Fin 1]] (PolynomialFunction 0) (Fin 2) = Inr v"
    by auto
  have "slice_at [] 0 = []" by (simp add: slice_at_def)
  with constructors_nil [where h = "[]" and cs = 0] have c: "NewPolynomialFunction [] 0 = None"
    by blast
  have "Len (take 2 knots) < 3" by (simp add: Len_def)
  then have d: "NewCubicSplineFunction [] (take 2 knots) = Inr (None, [])"
    by (rule NewCubicSplineFunction_nil)
  from ne a b c knots_NewCubicSplineFunction d show ?thesis by blast
qed

section \<open>The slope of a LeastSquaresFunction\<close>

lemma SmallestNonzeroFloat64_pos: "0 < 10 * SmallestNonzeroFloat64"
  by (simp add: SmallestNonzeroFloat64_def)

lemma SmallestNonzeroFloat64_small: "10 * SmallestNonzeroFloat64 \<le> 1 / 2"
proof -
  have "(2::real) ^ 5 \<le> 2 ^ 1074" by (rule power_increasing) simp_all
  then have "(20::real) \<le> 2 ^ 1074" by simp
  then show ?thesis by (simp add: SmallestNonzeroFloat64_def field_simps)
qed

lemma same_x_inv_AppendPoint:
  assumes "same_x_inv a lsf"
  shows "same_x_inv a (LeastSquaresFunction_AppendPoint lsf a y)"
proof (cases "count lsf = 0")
  case True
  with assms show ?thesis
    by (auto simp: same_x_inv_def LeastSquaresFunction_AppendPoint_def Let_def)
next
  case False
  with assms have c: "0 < count lsf" by (simp add: same_x_inv_def)
  show ?thesis
  proof (cases "sumXX lsf = NaN")
    case True
    with c False show ?thesis
      by (simp add: same_x_inv_def LeastSquaresFunction_AppendPoint_def Let_def)
  next
    case nn: False
    with assms c have s: "sumXX lsf = Fin 0" "xBar lsf = a" by (auto simp: same_x_inv_def)
    show ?thesis
    proof (cases a)
      case (Fin v)
      with s c False show ?thesis
        by (simp add: same_x_inv_def LeastSquaresFunction_AppendPoint_def Let_def
            float64_minus_self float64_of_int_def)
    qed (use s c False in \<open>simp_all add: same_x_inv_def LeastSquaresFunction_AppendPoint_def
            Let_def float64_minus_self\<close>)
  qed
qed

lemma same_x_inv_AppendPoints:
  "same_x_inv a lsf \<Longrightarrow> \<forall>p\<in>set ps. X p = a \<Longrightarrow>
   same_x_inv a (LeastSquaresFunction_AppendPoints lsf ps)"
  unfolding LeastSquaresFunction_AppendPoints_def
  by (induction ps arbitrary: lsf) (simp_all add: same_x_inv_AppendPoint)

lemma same_x_inv_slope: "same_x_inv a lsf \<Longrightarrow> slope lsf = NaN"
  using SmallestNonzeroFloat64_pos by (auto simp: same_x_inv_def slope_def)

lemma slope_same_x:
  assumes "\<forall>p\<in>set ps. X p = a"
  shows "slope (NewLeastSquaresFunction (Some ps)) = NaN"
proof -
  have "same_x_inv a new_LeastSquaresFunction"
    by (simp add: same_x_inv_def new_LeastSquaresFunction_def)
  from same_x_inv_AppendPoints [OF this assms] show ?thesis
    by (simp add: NewLeastSquaresFunction_def same_x_inv_slope)
qed

lemma count_AppendPoints:
  "count (LeastSquaresFunction_AppendPoints lsf ps) = count lsf + int (length ps)"
  unfolding LeastSquaresFunction_AppendPoints_def
  by (induction ps arbitrary: lsf) (simp_all add: LeastSquaresFunction_AppendPoint_def Let_def)

text \<open>The quotient of two float64 is NaN for a NaN operand, for \<open>0 / 0\<close> and for \<open>\<infinity> / \<infinity>\<close>.\<close>

lemma divide_eq_NaN:
  "(u / v = NaN) =
     (u = NaN \<or> v = NaN \<or> (u = Fin 0 \<and> v = Fin 0) \<or>
      ((u = PInf \<or> u = NInf) \<and> (v = PInf \<or> v = NInf)))"
  by (cases u; cases v) auto

lemma slope_eq_NaN:
  "(slope lsf = NaN) =
     (count lsf < 2 \<or> \<bar>sumXX lsf\<bar> < Fin (10 * SmallestNonzeroFloat64) \<or>
      sumXY lsf = NaN \<or> sumXX lsf = NaN \<or>
      ((sumXY lsf = PInf \<or> sumXY lsf = NInf) \<and> (sumXX lsf = PInf \<or> sumXX lsf = NInf)))"
proof (cases "count lsf < 2 \<or> \<bar>sumXX lsf\<bar> < Fin (10 * SmallestNonzeroFloat64)")
  case True
  then show ?thesis by (auto simp: slope_def)
next
  case False
  then have "sumXX lsf \<noteq> Fin 0" using SmallestNonzeroFloat64_pos by auto
  with False show ?thesis by (simp add: slope_def divide_eq_NaN)
qed

lemma NaN_ordinate_fields:
  "count NaN_ordinate = 2" "sumXX NaN_ordinate = Fin (1 / 2)" "sumXY NaN_ordinate = NaN"
  by (simp_all add: NaN_ordinate_def NewLeastSquaresFunction_def new_LeastSquaresFunction_def
      LeastSquaresFunction_AppendPoints_def LeastSquaresFunction_AppendPoint_def Let_def
      minus_float64_def float64_of_int_def)

lemma on_line_fields:
  "count on_line = 4" "sumXX on_line = Fin 5" "sumXY on_line = Fin 10"
  by (simp_all add: on_line_def NewLeastSquaresFunction_def new_LeastSquaresFunction_def
      LeastSquaresFunction_AppendPoints_def LeastSquaresFunction_AppendPoint_def Let_def
      minus_float64_def float64_of_int_def)

text \<open>
  C4, as the code has it: \<open>slope\<close> returns NaN if \<open>count < 2\<close> or \<open>|sumXX|\<close> is below
  ten times the least positive float64, and the quotient \<open>sumXY / sumXX\<close> otherwise.
  That quotient is a float64 quotient and can be NaN itself: \<open>slope\<close> is NaN exactly if
  \<open>count < 2\<close>, or \<open>|sumXX|\<close> is below the bound, or \<open>sumXY\<close> or \<open>sumXX\<close> is NaN, or both
  are infinite. A function fed no point (a nil or an empty set), one point, or only
  points of one abscissa, such as \<open>(5,1), (5,9)\<close>, has the slope NaN. The NaN is a
  float64 that \<open>slope\<close> returns: \<open>slope\<close> has no panic.
\<close>

theorem slope_NaN_sentinel:
  "slope lsf =
     (if count lsf < 2 \<or> \<bar>sumXX lsf\<bar> < Fin (10 * SmallestNonzeroFloat64) then NaN
      else sumXY lsf / sumXX lsf)
   \<and> (slope lsf = NaN) =
        (count lsf < 2 \<or> \<bar>sumXX lsf\<bar> < Fin (10 * SmallestNonzeroFloat64) \<or>
         sumXY lsf = NaN \<or> sumXX lsf = NaN \<or>
         ((sumXY lsf = PInf \<or> sumXY lsf = NInf) \<and> (sumXX lsf = PInf \<or> sumXX lsf = NInf)))
   \<and> slope (NewLeastSquaresFunction None) = NaN
   \<and> slope (NewLeastSquaresFunction (Some [])) = NaN
   \<and> slope (NewLeastSquaresFunction (Some [p])) = NaN
   \<and> ((\<forall>p\<in>set ps. X p = a) \<longrightarrow> slope (NewLeastSquaresFunction (Some ps)) = NaN)
   \<and> slope (NewLeastSquaresFunction
        (Some [NewPoint (Fin 5) (Fin 1), NewPoint (Fin 5) (Fin 9)])) = NaN"
proof (intro conjI impI)
  show "slope lsf =
     (if count lsf < 2 \<or> \<bar>sumXX lsf\<bar> < Fin (10 * SmallestNonzeroFloat64) then NaN
      else sumXY lsf / sumXX lsf)"
    by (simp add: slope_def)
next
  show "(slope lsf = NaN) =
        (count lsf < 2 \<or> \<bar>sumXX lsf\<bar> < Fin (10 * SmallestNonzeroFloat64) \<or>
         sumXY lsf = NaN \<or> sumXX lsf = NaN \<or>
         ((sumXY lsf = PInf \<or> sumXY lsf = NInf) \<and> (sumXX lsf = PInf \<or> sumXX lsf = NInf)))"
    by (rule slope_eq_NaN)
next
  show "slope (NewLeastSquaresFunction None) = NaN"
    by (simp add: NewLeastSquaresFunction_def new_LeastSquaresFunction_def slope_def)
next
  show "slope (NewLeastSquaresFunction (Some [])) = NaN"
    by (simp add: NewLeastSquaresFunction_def count_AppendPoints new_LeastSquaresFunction_def
        slope_def)
next
  show "slope (NewLeastSquaresFunction (Some [p])) = NaN"
    by (simp add: NewLeastSquaresFunction_def count_AppendPoints new_LeastSquaresFunction_def
        slope_def)
next
  assume "\<forall>p\<in>set ps. X p = a"
  then show "slope (NewLeastSquaresFunction (Some ps)) = NaN" by (rule slope_same_x)
next
  show "slope (NewLeastSquaresFunction
        (Some [NewPoint (Fin 5) (Fin 1), NewPoint (Fin 5) (Fin 9)])) = NaN"
    by (rule slope_same_x [of _ "Fin 5"]) simp
qed

text \<open>
  Four points on the line \<open>y = 2x + 1\<close>: the sums are finite and the slope is \<open>2\<close>, not
  NaN. Two points of the abscissa \<open>5\<close>: the slope is NaN.
\<close>

theorem slope_NaN_sentinel_witness:
  "sumXX on_line = Fin 5 \<and> sumXY on_line = Fin 10 \<and> count on_line = 4 \<and>
   slope on_line = Fin 2 \<and>
   X (NewPoint (Fin 5) (Fin 1)) = Fin 5 \<and> X (NewPoint (Fin 5) (Fin 9)) = Fin 5 \<and>
   slope (NewLeastSquaresFunction (Some [NewPoint (Fin 5) (Fin 1), NewPoint (Fin 5) (Fin 9)]))
     = NaN"
proof -
  note t = slope_NaN_sentinel
    [where lsf = on_line and ps = "[NewPoint (Fin 5) (Fin 1), NewPoint (Fin 5) (Fin 9)]"
       and a = "Fin 5"]
  have "\<not> (5::real) < 10 * SmallestNonzeroFloat64"
    using SmallestNonzeroFloat64_small by simp
  with t have "slope on_line = Fin 2" by (simp add: on_line_fields)
  moreover have "\<forall>p\<in>set [NewPoint (Fin 5) (Fin 1), NewPoint (Fin 5) (Fin 9)]. X p = Fin 5"
    by simp
  with t have "slope (NewLeastSquaresFunction
      (Some [NewPoint (Fin 5) (Fin 1), NewPoint (Fin 5) (Fin 9)])) = NaN" by blast
  ultimately show ?thesis by (simp add: on_line_fields)
qed

text \<open>
  After the points \<open>(0, 0)\<close> and \<open>(1, NaN)\<close> the count is \<open>2\<close> and \<open>sumXX\<close> is \<open>1/2\<close>,
  neither below its bound, and the slope is NaN all the same: \<open>sumXY\<close> is NaN.
\<close>

theorem slope_NaN_without_either_cause:
  "slope NaN_ordinate = NaN \<and> \<not> count NaN_ordinate < 2 \<and>
   \<not> \<bar>sumXX NaN_ordinate\<bar> < Fin (10 * SmallestNonzeroFloat64)"
  using SmallestNonzeroFloat64_small by (simp add: slope_def NaN_ordinate_fields)

section \<open>evalPoints samples a half-open range\<close>

text \<open>
  The loop from the \<open>k\<close>-th abscissa, when exactly the first \<open>n\<close> abscissas are below
  \<open>toX\<close>: it ends, appending the points of the abscissas \<open>k, \<dots>, n - 1\<close>, or with the first
  panic of \<open>f\<close>.
\<close>

lemma evalPoints_loop_abscissas:
  assumes "\<forall>j<n. abscissa a s j < b" "\<not> abscissa a s n < b"
  shows "k \<le> n \<Longrightarrow>
    evalPoints_loop f b s (abscissa a s k) acc =
      Some (case collect_points f (map (abscissa a s) [k..<n]) of
              Inl e \<Rightarrow> Inl e
            | Inr ps \<Rightarrow> Inr (acc @ ps))"
proof (induction "n - k" arbitrary: k acc)
  case 0
  then have "k = n" by simp
  with assms(2) show ?case by (subst evalPoints_loop.simps) simp
next
  case (Suc m)
  then have k: "k < n" and m: "m = n - Suc k" and le: "Suc k \<le> n" by simp_all
  from assms(1) k have lt: "abscissa a s k < b" by simp
  have upt: "[k..<n] = k # [Suc k..<n]" using k by (simp add: upt_conv_Cons)
  show ?case
  proof (cases "f (abscissa a s k)")
    case (Inl e)
    with lt upt show ?thesis by (subst evalPoints_loop.simps) simp
  next
    case (Inr y)
    from Suc.hyps(1) [OF m le, of "AppendPoint acc (abscissa a s k) y"]
    have "evalPoints_loop f b s (rnd64 (abscissa a s k + s))
            (AppendPoint acc (abscissa a s k) y) =
          Some (case collect_points f (map (abscissa a s) [Suc k..<n]) of
              Inl e \<Rightarrow> Inl e
            | Inr ps \<Rightarrow> Inr (AppendPoint acc (abscissa a s k) y @ ps))"
      by simp
    with Inr lt upt show ?thesis
      by (subst evalPoints_loop.simps) (simp add: AppendPoint_def split: sum.splits)
  qed
qed

lemma evalPoints_abscissas:
  assumes "NewPoints impl (int_of_float64 impl (evalPoints_interval a b cnt)) = Inr []"
    and "\<forall>j<n. abscissa a (evalPoints_interval a b cnt) j < b"
    and "\<not> abscissa a (evalPoints_interval a b cnt) n < b"
  shows "evalPoints impl f a b cnt =
           Some (collect_points f (map (abscissa a (evalPoints_interval a b cnt)) [0..<n]))"
proof -
  from evalPoints_loop_abscissas [OF assms(2,3), of 0 f "[]"]
  have "evalPoints_loop f b (evalPoints_interval a b cnt) a [] =
          Some (collect_points f (map (abscissa a (evalPoints_interval a b cnt)) [0..<n]))"
    by (simp split: sum.splits)
  then show ?thesis by (simp add: evalPoints_def assms(1))
qed

text \<open>
  Integer bounds: while the abscissas \<open>a + k s\<close> stay within \<open>2\<^sup>5\<^sup>3\<close> no sum rounds, and
  when \<open>count\<close> divides \<open>b - a\<close> the step is the integer \<open>(b - a) / count\<close>.
\<close>

lemma abscissa_int:
  fixes a s :: int
  assumes "\<forall>j\<le>n. \<bar>a + int j * s\<bar> \<le> 2 ^ 53"
  shows "k \<le> n \<Longrightarrow> abscissa (Fin (of_int a)) (Fin (of_int s)) k = Fin (of_int (a + int k * s))"
proof (induction k)
  case 0
  then show ?case by simp
next
  case (Suc k)
  from assms Suc.prems have "\<bar>a + int (Suc k) * s\<bar> \<le> 2 ^ 53" by blast
  then have r: "round64 (of_int (a + int (Suc k) * s)) = Fin (of_int (a + int (Suc k) * s))"
    by (rule round64_of_int)
  have e: "real_of_int (a + int k * s) + real_of_int s = real_of_int (a + int (Suc k) * s)"
    by (simp add: algebra_simps)
  from Suc have "abscissa (Fin (of_int a)) (Fin (of_int s)) k = Fin (of_int (a + int k * s))"
    by simp
  then have "abscissa (Fin (of_int a)) (Fin (of_int s)) (Suc k) =
          round64 (real_of_int (a + int k * s) + real_of_int s)"
    by (simp del: of_int_add of_int_mult)
  then show ?case unfolding e r .
qed

lemma evalPoints_interval_int:
  fixes a b cnt :: int
  assumes "0 < cnt" "cnt dvd b - a" "\<bar>a\<bar> \<le> 2 ^ 52" "\<bar>b\<bar> \<le> 2 ^ 52" "a < b"
  shows "evalPoints_interval (Fin (of_int a)) (Fin (of_int b)) cnt = Fin (of_int ((b - a) div cnt))"
proof -
  have d: "\<bar>b - a\<bar> \<le> 2 ^ 53" using assms(3,4) by simp
  have "cnt \<le> b - a" using assms(1,2,5) by (intro zdvd_imp_le) simp_all
  then have c: "\<bar>cnt\<bar> \<le> 2 ^ 53" using assms(1) d by simp
  have nn: "0 \<le> (b - a) div cnt" using assms(1,5) by (simp add: pos_imp_zdiv_nonneg_iff)
  have "cnt * ((b - a) div cnt) = b - a" using assms(2) by simp
  moreover have "1 * ((b - a) div cnt) \<le> cnt * ((b - a) div cnt)"
    using nn assms(1) by (intro mult_right_mono) simp_all
  ultimately have "(b - a) div cnt \<le> b - a" by simp
  with nn d have s: "\<bar>(b - a) div cnt\<bar> \<le> 2 ^ 53" by simp
  have q: "real_of_int (b - a) / real_of_int cnt = real_of_int ((b - a) div cnt)"
    using assms(2) by (simp add: real_of_int_div)
  have "rnd64 (Fin (of_int b) - Fin (of_int a)) = Fin (of_int (b - a))"
    using round64_of_int [OF d] by (simp add: minus_float64_def)
  moreover have "rnd64 (float64_of_int cnt) = Fin (of_int cnt)"
    using round64_of_int [OF c] by (simp add: float64_of_int_def)
  moreover have "rnd64 (Fin (of_int (b - a)) / Fin (of_int cnt)) = Fin (of_int ((b - a) div cnt))"
    using round64_of_int [OF s] assms(1) q by simp
  ultimately show ?thesis by (simp add: evalPoints_interval_def)
qed

lemma evalPoints_int:
  fixes a b cnt :: int
  assumes "a < b" "0 < cnt" "cnt dvd b - a" "\<bar>a\<bar> \<le> 2 ^ 52" "\<bar>b\<bar> \<le> 2 ^ 52"
    and "NewPoints impl
           (int_of_float64 impl (evalPoints_interval (Fin (of_int a)) (Fin (of_int b)) cnt)) =
         Inr []"
  shows "evalPoints impl f (Fin (of_int a)) (Fin (of_int b)) cnt =
           Some (collect_points f
                   (map (\<lambda>k. Fin (of_int (a + int k * ((b - a) div cnt)))) [0..<nat cnt]))"
proof -
  define s where "s = (b - a) div cnt"
  have i: "evalPoints_interval (Fin (of_int a)) (Fin (of_int b)) cnt = Fin (of_int s)"
    unfolding s_def using assms(2,3,4,5,1) by (rule evalPoints_interval_int)
  have cs: "cnt * s = b - a" using assms(3) by (simp add: s_def)
  have s0: "0 < s"
  proof (rule ccontr)
    assume "\<not> 0 < s"
    then have "cnt * s \<le> 0" using assms(2) by (simp add: mult_le_0_iff)
    with cs assms(1) show False by simp
  qed
  have range: "a \<le> a + int j * s \<and> a + int j * s \<le> b" if "j \<le> nat cnt" for j
  proof -
    have "int j * s \<le> cnt * s" using that s0 assms(2) by (intro mult_right_mono) simp_all
    moreover have "0 \<le> int j * s" using s0 by simp
    ultimately show ?thesis using cs by simp
  qed
  have bound: "\<forall>j\<le>nat cnt. \<bar>a + int j * s\<bar> \<le> 2 ^ 53"
  proof (intro allI impI)
    fix j assume "j \<le> nat cnt"
    from range [OF this] have "a \<le> a + int j * s" "a + int j * s \<le> b" by simp_all
    moreover have "(2::int) ^ 53 = 2 * 2 ^ 52" by simp
    ultimately show "\<bar>a + int j * s\<bar> \<le> 2 ^ 53" using assms(4,5) by linarith
  qed
  have ab: "abscissa (Fin (of_int a)) (Fin (of_int s)) k = Fin (of_int (a + int k * s))"
    if "k \<le> nat cnt" for k
    using bound that by (rule abscissa_int)
  have below: "\<forall>j<nat cnt. abscissa (Fin (of_int a)) (Fin (of_int s)) j < Fin (of_int b)"
  proof (intro allI impI)
    fix j assume j: "j < nat cnt"
    then have "int j * s < cnt * s" using s0 by (intro mult_strict_right_mono) simp_all
    with cs have "a + int j * s < b" by simp
    then have "real_of_int (a + int j * s) < real_of_int b" by (simp only: of_int_less_iff)
    with ab [of j] j show "abscissa (Fin (of_int a)) (Fin (of_int s)) j < Fin (of_int b)"
      by simp
  qed
  have "a + int (nat cnt) * s = b" using cs assms(2) by simp
  then have "real_of_int (a + int (nat cnt) * s) = real_of_int b" by (simp only:)
  with ab [of "nat cnt"]
  have top: "\<not> abscissa (Fin (of_int a)) (Fin (of_int s)) (nat cnt) < Fin (of_int b)" by simp
  have m: "map (abscissa (Fin (of_int a)) (Fin (of_int s))) [0..<nat cnt] =
           map (\<lambda>k. Fin (of_int (a + int k * s))) [0..<nat cnt]"
    using ab by simp
  from assms(6) have c: "NewPoints impl (int_of_float64 impl (Fin (of_int s))) = Inr []"
    unfolding i .
  from evalPoints_abscissas
    [of impl "Fin (of_int a)" "Fin (of_int b)" cnt "nat cnt" f, unfolded i, OF c below top]
  have "evalPoints impl f (Fin (of_int a)) (Fin (of_int b)) cnt =
          Some (collect_points f (map (\<lambda>k. Fin (of_int (a + int k * s))) [0..<nat cnt]))"
    unfolding m .
  then show ?thesis unfolding s_def .
qed

text \<open>The points collected where \<open>f\<close> does not panic.\<close>

lemma collect_points_total:
  "\<forall>x\<in>set xs. \<exists>y. f x = Inr y \<Longrightarrow>
   \<exists>ps. collect_points f xs = Inr ps \<and> map X ps = xs \<and> (\<forall>p\<in>set ps. f (X p) = Inr (Y p))"
proof (induction xs)
  case Nil
  then show ?case by simp
next
  case (Cons x xs)
  then obtain y ps where "f x = Inr y" "collect_points f xs = Inr ps" "map X ps = xs"
    "\<forall>p\<in>set ps. f (X p) = Inr (Y p)" by auto
  then show ?case by simp
qed

lemma int_of_float64_small:
  "0 \<le> n \<Longrightarrow> n < 2 ^ 31 \<Longrightarrow> int_of_float64 impl (Fin (of_int n)) = n"
  by (simp add: int_of_float64_def Let_def)

lemma evalPoints_0_10_5:
  assumes "NewPoints impl 2 = Inr []"
  shows "evalPoints impl f (Fin 0) (Fin 10) 5 =
           Some (collect_points f [Fin 0, Fin 2, Fin 4, Fin 6, Fin 8])"
proof -
  have i: "evalPoints_interval (Fin 0) (Fin 10) 5 = Fin 2"
    using evalPoints_interval_int [of 5 10 0] by simp
  have c: "int_of_float64 impl (Fin 2) = 2"
    using int_of_float64_small [of 2 impl] by simp
  have "evalPoints impl f (Fin (of_int 0)) (Fin (of_int 10)) 5 =
          Some (collect_points f
                  (map (\<lambda>k. Fin (of_int (0 + int k * ((10 - 0) div 5)))) [0..<nat 5]))"
    by (rule evalPoints_int) (simp_all add: i c assms)
  then show ?thesis by (simp add: upt_rec)
qed

text \<open>
  A step that is not absorbed. When the step \<open>s\<close> is at least \<open>2\<^sup>-\<^sup>1\<^sup>0\<^sup>0\<^sup>0\<close> and at least \<open>2\<^sup>-\<^sup>5\<^sup>1\<close>
  times the larger of \<open>\<bar>fromX\<bar>\<close> and \<open>\<bar>toX\<bar>\<close>, the error of the rounded sum \<open>x + s\<close> is at
  most \<open>s / 2\<close> for every \<open>x\<close> from \<open>fromX\<close> up to \<open>toX\<close>: each abscissa is above the last by
  \<open>s / 2\<close> or more (or it is the infinity), so the abscissas leave the range.
\<close>

lemma abscissa_step:
  assumes "1 / 2 ^ 1000 \<le> s" "max \<bar>a\<bar> \<bar>b\<bar> \<le> 2 ^ 51 * s" "- (2 ^ 1023) \<le> a"
    and "a \<le> x" "x < b"
  shows "rnd64 (Fin x + Fin s) = PInf \<or> (\<exists>y. rnd64 (Fin x + Fin s) = Fin y \<and> x + s / 2 \<le> y)"
proof (cases "round64 (x + s)")
  case (Fin y)
  have s: "0 < s" using assms(1) by (rule less_le_trans [rotated]) simp
  from assms(4,5) have "\<bar>x\<bar> \<le> max \<bar>a\<bar> \<bar>b\<bar>" by (simp add: abs_le_iff max_def) linarith
  with assms(2) have "\<bar>x\<bar> \<le> 2 ^ 51 * s" by linarith
  then have "\<bar>x + s\<bar> \<le> 2 ^ 51 * s + s" using s by linarith
  then have "\<bar>x + s\<bar> / 2 ^ 53 \<le> (2 ^ 51 * s + s) / 2 ^ 53" by (rule divide_right_mono) simp
  also have "(2 ^ 51 * s + s) / 2 ^ 53 = s / 4 + s / 2 ^ 53" by (simp add: field_simps)
  also have "\<dots> \<le> s / 4 + s / 8" using s by (simp add: field_simps)
  finally have e1: "\<bar>x + s\<bar> / 2 ^ 53 \<le> s / 4 + s / 8" .
  have "(1 / 2 ^ 1075 :: real) \<le> 1 / 2 ^ 1000 / 8" by simp
  also have "\<dots> \<le> s / 8" using assms(1) by (rule divide_right_mono) simp
  finally have e2: "(1 / 2 ^ 1075 :: real) \<le> s / 8" .
  from round64_error [OF Fin] have "\<bar>y - (x + s)\<bar> \<le> \<bar>x + s\<bar> / 2 ^ 53 + 1 / 2 ^ 1075" .
  with e1 e2 have "x + s / 2 \<le> y" by linarith
  with Fin show ?thesis by simp
next
  case PInf
  then show ?thesis by simp
next
  case NInf
  from round64_overflow(2) [OF this] have "x + s < - (2 ^ 1023)" .
  moreover have "0 < s" using assms(1) by (rule less_le_trans [rotated]) simp
  ultimately show ?thesis using assms(3,4) by linarith
next
  case NaN
  then show ?thesis by (simp add: round64_not_NaN)
qed

lemma abscissa_reaches:
  assumes "1 / 2 ^ 1000 \<le> s" "max \<bar>a\<bar> \<bar>b\<bar> \<le> 2 ^ 51 * s" "- (2 ^ 1023) \<le> a"
  shows "(\<exists>j\<le>k. \<not> abscissa (Fin a) (Fin s) j < Fin b) \<or>
         (\<exists>v. abscissa (Fin a) (Fin s) k = Fin v \<and> a + real k * (s / 2) \<le> v \<and> v < b)"
proof (induction k)
  case 0
  show ?case by (cases "a < b") simp_all
next
  case (Suc k)
  have s: "0 < s" using assms(1) by (rule less_le_trans [rotated]) simp
  from Suc show ?case
  proof
    assume "\<exists>j\<le>k. \<not> abscissa (Fin a) (Fin s) j < Fin b"
    then obtain j where "j \<le> k" "\<not> abscissa (Fin a) (Fin s) j < Fin b" by blast
    then have "j \<le> Suc k \<and> \<not> abscissa (Fin a) (Fin s) j < Fin b" by simp
    then show ?thesis by blast
  next
    assume "\<exists>v. abscissa (Fin a) (Fin s) k = Fin v \<and> a + real k * (s / 2) \<le> v \<and> v < b"
    then obtain v where v: "abscissa (Fin a) (Fin s) k = Fin v" "a + real k * (s / 2) \<le> v" "v < b"
      by blast
    have "0 \<le> real k * (s / 2)" using s by simp
    with v(2) have av: "a \<le> v" by linarith
    from abscissa_step [OF assms av v(3)]
    show ?thesis
    proof
      assume "rnd64 (Fin v + Fin s) = PInf"
      then have "\<not> abscissa (Fin a) (Fin s) (Suc k) < Fin b" using v(1) by simp
      then show ?thesis by blast
    next
      assume "\<exists>y. rnd64 (Fin v + Fin s) = Fin y \<and> v + s / 2 \<le> y"
      then obtain y where y: "rnd64 (Fin v + Fin s) = Fin y" "v + s / 2 \<le> y" by blast
      have x: "abscissa (Fin a) (Fin s) (Suc k) = Fin y" using v(1) y(1) by simp
      have "real (Suc k) * (s / 2) = real k * (s / 2) + s / 2" by (simp add: algebra_simps)
      with v(2) y(2) have low: "a + real (Suc k) * (s / 2) \<le> y" by linarith
      show ?thesis
      proof (cases "y < b")
        case True
        with x low show ?thesis by blast
      next
        case False
        with x have "\<not> abscissa (Fin a) (Fin s) (Suc k) < Fin b" by simp
        then show ?thesis by blast
      qed
    qed
  qed
qed

lemma abscissa_leaves:
  assumes "1 / 2 ^ 1000 \<le> s" "max \<bar>a\<bar> \<bar>b\<bar> \<le> 2 ^ 51 * s" "- (2 ^ 1023) \<le> a"
  shows "\<exists>n. (\<forall>k<n. abscissa (Fin a) (Fin s) k < Fin b) \<and> \<not> abscissa (Fin a) (Fin s) n < Fin b"
proof -
  define Q where "Q = (\<lambda>j. \<not> abscissa (Fin a) (Fin s) j < Fin b)"
  have s: "0 < s / 2" using assms(1) by (simp add: less_le_trans [rotated])
  then obtain K :: nat where K: "b - a < real K * (s / 2)"
    using reals_Archimedean3 by blast
  have "\<exists>j. \<not> abscissa (Fin a) (Fin s) j < Fin b"
  proof -
    from abscissa_reaches [OF assms, of K] show ?thesis
    proof
      assume "\<exists>j\<le>K. \<not> abscissa (Fin a) (Fin s) j < Fin b"
      then show ?thesis by blast
    next
      assume "\<exists>v. abscissa (Fin a) (Fin s) K = Fin v \<and> a + real K * (s / 2) \<le> v \<and> v < b"
      with K show ?thesis by force
    qed
  qed
  then have ex: "\<exists>j. Q j" by (simp add: Q_def)
  then have "Q (LEAST j. Q j)" by (rule LeastI_ex)
  moreover have "\<forall>k<(LEAST j. Q j). \<not> Q k" using not_less_Least by blast
  ultimately show ?thesis unfolding Q_def by blast
qed

text \<open>
  C5: \<open>evalPoints\<close> computes the step \<open>(toX - fromX) / count\<close> in binary64 and steps
  through the abscissas \<open>x\<^sub>0 = fromX\<close>, \<open>x\<^sub>k\<^sub>+\<^sub>1 = x\<^sub>k + step\<close>, each sum rounded. When \<^verbatim>\<open>make\<close>
  accepts the capacity \<^verbatim>\<open>int(step)\<close> and the abscissas are below \<open>toX\<close> for \<open>k < n\<close> and not
  for \<open>k = n\<close>, it returns the \<open>n\<close> points \<open>(x\<^sub>k, f.Eval(x\<^sub>k))\<close>, \<open>k < n\<close>, in this order (or the
  first panic of \<open>f.Eval\<close> among them): no abscissa sampled is \<open>toX\<close> or beyond. There is
  such an \<open>n\<close>, so that \<open>evalPoints\<close> ends, whenever the bounds are numbers with
  \<open>fromX \<ge> -2\<^sup>1\<^sup>0\<^sup>2\<^sup>3\<close> and the step is a number, at least \<open>2\<^sup>-\<^sup>1\<^sup>0\<^sup>0\<^sup>0\<close> and at least \<open>2\<^sup>-\<^sup>5\<^sup>1\<close> times the
  larger of \<open>\<bar>fromX\<bar>\<close> and \<open>\<bar>toX\<bar>\<close>. For integer
  bounds \<open>fromX < toX\<close> of magnitude at most \<open>2\<^sup>5\<^sup>2\<close> and a \<open>count > 0\<close> that divides
  \<open>toX - fromX\<close> these are the \<open>count\<close> abscissas \<open>fromX + k step\<close>, \<open>k < count\<close>. For a polynomial
  function, \<open>evalPoints(poly, 0, 10, 5)\<close> returns five points, at \<open>x = 0, 2, 4, 6, 8\<close>, each
  with the ordinate \<open>Eval\<close> returns there, on every implementation whose \<^verbatim>\<open>make\<close> accepts
  the capacity \<open>2\<close>.
\<close>

theorem evalPoints_samples:
  "(NewPoints impl (int_of_float64 impl (evalPoints_interval fromX toX cnt)) = Inr [] \<and>
    (\<forall>k<n. abscissa fromX (evalPoints_interval fromX toX cnt) k < toX) \<and>
    \<not> abscissa fromX (evalPoints_interval fromX toX cnt) n < toX \<longrightarrow>
      evalPoints impl f fromX toX cnt =
        Some (collect_points f
                (map (abscissa fromX (evalPoints_interval fromX toX cnt)) [0..<n])))
   \<and> (evalPoints_interval (Fin lo) (Fin hi) cnt = Fin s \<and>
       NewPoints impl (int_of_float64 impl (Fin s)) = Inr [] \<and>
       1 / 2 ^ 1000 \<le> s \<and> max \<bar>lo\<bar> \<bar>hi\<bar> \<le> 2 ^ 51 * s \<and> - (2 ^ 1023) \<le> lo \<longrightarrow>
      (\<exists>n. (\<forall>k<n. abscissa (Fin lo) (Fin s) k < Fin hi) \<and>
           \<not> abscissa (Fin lo) (Fin s) n < Fin hi \<and>
           evalPoints impl f (Fin lo) (Fin hi) cnt =
             Some (collect_points f (map (abscissa (Fin lo) (Fin s)) [0..<n]))))
   \<and> (a < b \<and> 0 < cnt \<and> cnt dvd b - a \<and> \<bar>a\<bar> \<le> 2 ^ 52 \<and> \<bar>b\<bar> \<le> 2 ^ 52 \<and>
       NewPoints impl
         (int_of_float64 impl (evalPoints_interval (Fin (of_int a)) (Fin (of_int b)) cnt)) =
       Inr [] \<longrightarrow>
      evalPoints impl f (Fin (of_int a)) (Fin (of_int b)) cnt =
        Some (collect_points f
                (map (\<lambda>k. Fin (of_int (a + int k * ((b - a) div cnt)))) [0..<nat cnt])))
   \<and> (NewPolynomialFunction h cs = Some pf \<and> NewPoints impl 2 = Inr [] \<longrightarrow>
        (\<exists>ps. evalPoints impl (PolynomialFunction_Eval_binary64 impl h pf) (Fin 0) (Fin 10) 5 =
                Some (Inr ps) \<and>
              map X ps = [Fin 0, Fin 2, Fin 4, Fin 6, Fin 8] \<and>
              (\<forall>p\<in>set ps. PolynomialFunction_Eval_binary64 impl h pf (X p) = Inr (Y p))))"
proof (intro conjI impI)
  assume "NewPoints impl (int_of_float64 impl (evalPoints_interval fromX toX cnt)) = Inr [] \<and>
    (\<forall>k<n. abscissa fromX (evalPoints_interval fromX toX cnt) k < toX) \<and>
    \<not> abscissa fromX (evalPoints_interval fromX toX cnt) n < toX"
  then show "evalPoints impl f fromX toX cnt =
        Some (collect_points f
                (map (abscissa fromX (evalPoints_interval fromX toX cnt)) [0..<n]))"
    by (intro evalPoints_abscissas) simp_all
next
  assume h: "evalPoints_interval (Fin lo) (Fin hi) cnt = Fin s \<and>
       NewPoints impl (int_of_float64 impl (Fin s)) = Inr [] \<and>
       1 / 2 ^ 1000 \<le> s \<and> max \<bar>lo\<bar> \<bar>hi\<bar> \<le> 2 ^ 51 * s \<and> - (2 ^ 1023) \<le> lo"
  then have "\<exists>n. (\<forall>k<n. abscissa (Fin lo) (Fin s) k < Fin hi) \<and>
               \<not> abscissa (Fin lo) (Fin s) n < Fin hi"
    by (intro abscissa_leaves) simp_all
  then obtain n where n: "\<forall>k<n. abscissa (Fin lo) (Fin s) k < Fin hi"
    "\<not> abscissa (Fin lo) (Fin s) n < Fin hi" by blast
  from h have i: "evalPoints_interval (Fin lo) (Fin hi) cnt = Fin s"
    and c: "NewPoints impl (int_of_float64 impl (Fin s)) = Inr []" by simp_all
  have "evalPoints impl f (Fin lo) (Fin hi) cnt =
          Some (collect_points f (map (abscissa (Fin lo) (Fin s)) [0..<n]))"
    using evalPoints_abscissas [of impl "Fin lo" "Fin hi" cnt n f] i c n by simp
  with n show "\<exists>n. (\<forall>k<n. abscissa (Fin lo) (Fin s) k < Fin hi) \<and>
           \<not> abscissa (Fin lo) (Fin s) n < Fin hi \<and>
           evalPoints impl f (Fin lo) (Fin hi) cnt =
             Some (collect_points f (map (abscissa (Fin lo) (Fin s)) [0..<n]))"
    by blast
next
  assume "a < b \<and> 0 < cnt \<and> cnt dvd b - a \<and> \<bar>a\<bar> \<le> 2 ^ 52 \<and> \<bar>b\<bar> \<le> 2 ^ 52 \<and>
       NewPoints impl
         (int_of_float64 impl (evalPoints_interval (Fin (of_int a)) (Fin (of_int b)) cnt)) =
       Inr []"
  then show "evalPoints impl f (Fin (of_int a)) (Fin (of_int b)) cnt =
        Some (collect_points f
                (map (\<lambda>k. Fin (of_int (a + int k * ((b - a) div cnt)))) [0..<nat cnt]))"
    by (intro evalPoints_int) simp_all
next
  assume "NewPolynomialFunction h cs = Some pf \<and> NewPoints impl 2 = Inr []"
  then have new: "NewPolynomialFunction h cs = Some pf" and cap: "NewPoints impl 2 = Inr []"
    by simp_all
  from new have "slice_at h (coefficients pf) \<noteq> []"
    by (auto simp: NewPolynomialFunction_def split: if_splits)
  then have total: "\<exists>y. PolynomialFunction_Eval_binary64 impl h pf x = Inr y" for x
    by (rule PolynomialFunction_Eval_binary64_total)
  have e: "evalPoints impl (PolynomialFunction_Eval_binary64 impl h pf) (Fin 0) (Fin 10) 5 =
          Some (collect_points (PolynomialFunction_Eval_binary64 impl h pf)
                  [Fin 0, Fin 2, Fin 4, Fin 6, Fin 8])"
    using cap by (rule evalPoints_0_10_5)
  have "\<forall>x\<in>set [Fin 0, Fin 2, Fin 4, Fin 6, Fin 8].
          \<exists>y. PolynomialFunction_Eval_binary64 impl h pf x = Inr y"
    using total by blast
  from collect_points_total [OF this]
  obtain ps where
    "collect_points (PolynomialFunction_Eval_binary64 impl h pf)
       [Fin 0, Fin 2, Fin 4, Fin 6, Fin 8] = Inr ps"
    "map X ps = [Fin 0, Fin 2, Fin 4, Fin 6, Fin 8]"
    "\<forall>p\<in>set ps. PolynomialFunction_Eval_binary64 impl h pf (X p) = Inr (Y p)"
    by (elim exE conjE)
  with e show "\<exists>ps. evalPoints impl (PolynomialFunction_Eval_binary64 impl h pf)
                  (Fin 0) (Fin 10) 5 = Some (Inr ps) \<and>
              map X ps = [Fin 0, Fin 2, Fin 4, Fin 6, Fin 8] \<and>
              (\<forall>p\<in>set ps. PolynomialFunction_Eval_binary64 impl h pf (X p) = Inr (Y p))"
    by simp
qed

text \<open>The polynomial \<open>1 + 2x\<close> sampled from \<open>0\<close> to \<open>10\<close> with the count \<open>5\<close>, on amd64.\<close>

theorem evalPoints_samples_witness:
  "NewPoints amd64 (int_of_float64 amd64 (evalPoints_interval (Fin 0) (Fin 10) 5)) = Inr [] \<and>
   map (abscissa (Fin 0) (evalPoints_interval (Fin 0) (Fin 10) 5)) [0, 1, 2, 3, 4, 5] =
     [Fin 0, Fin 2, Fin 4, Fin 6, Fin 8, Fin 10] \<and>
   evalPoints_interval (Fin 0) (Fin 10) 5 = Fin 2 \<and>
   NewPoints amd64 (int_of_float64 amd64 (Fin 2)) = Inr [] \<and>
   (1 / 2 ^ 1000 :: real) \<le> 2 \<and> max \<bar>0\<bar> \<bar>10\<bar> \<le> 2 ^ 51 * (2 :: real) \<and>
   - (2 ^ 1023) \<le> (0 :: real) \<and>
   (0 :: int) < 10 \<and> (0 :: int) < 5 \<and> (5 :: int) dvd 10 - 0 \<and>
   \<bar>0 :: int\<bar> \<le> 2 ^ 52 \<and> \<bar>10 :: int\<bar> \<le> 2 ^ 52 \<and>
   NewPolynomialFunction [[Fin 1, Fin 2]] 0 = Some (PolynomialFunction 0) \<and>
   NewPoints amd64 2 = Inr [] \<and>
   evalPoints amd64
       (PolynomialFunction_Eval_binary64 amd64 [[Fin 1, Fin 2]] (PolynomialFunction 0))
       (Fin 0) (Fin 10) 5 =
     Some (Inr [NewPoint (Fin 0) (Fin 1), NewPoint (Fin 2) (Fin 5), NewPoint (Fin 4) (Fin 9),
                NewPoint (Fin 6) (Fin 13), NewPoint (Fin 8) (Fin 17)])"
proof -
  let ?f = "PolynomialFunction_Eval_binary64 amd64 [[Fin 1, Fin 2]] (PolynomialFunction 0)"
  have i: "evalPoints_interval (Fin 0) (Fin 10) 5 = Fin 2"
    using evalPoints_interval_int [of 5 10 0] by simp
  have c: "int_of_float64 amd64 (Fin 2) = 2"
    using int_of_float64_small [of 2 amd64] by simp
  have cap: "NewPoints amd64 2 = Inr []" by (simp add: NewPoints_def amd64_def)
  have ab: "abscissa (Fin 0) (Fin 2) k = Fin (2 * real k)" if "k \<le> 5" for k
    using abscissa_int [of 5 0 2 k] that by (simp add: mult.commute)
  have xs: "map (abscissa (Fin 0) (Fin 2)) [0, 1, 2, 3, 4, 5] =
          [Fin 0, Fin 2, Fin 4, Fin 6, Fin 8, Fin 10]"
    using ab [of 0] ab [of 1] ab [of 2] ab [of 3] ab [of 4] ab [of 5] by simp
  have below: "\<forall>k<5. abscissa (Fin 0) (Fin 2) k < Fin 10"
  proof (intro allI impI)
    fix k :: nat assume "k < 5"
    then show "abscissa (Fin 0) (Fin 2) k < Fin 10" by (simp add: ab)
  qed
  have top: "\<not> abscissa (Fin 0) (Fin 2) 5 < Fin 10" by (simp add: ab)
  have new: "NewPolynomialFunction [[Fin 1, Fin 2]] 0 = Some (PolynomialFunction 0)"
    by (simp add: NewPolynomialFunction_def slice_at_def)
  have f: "?f (Fin (of_int v)) = Inr (Fin (of_int (1 + 2 * v)))" if "\<bar>v\<bar> \<le> 8" for v :: int
  proof -
    have "\<bar>v * 2\<bar> \<le> 2 ^ 53" "\<bar>v * 2 + 1\<bar> \<le> 2 ^ 53" using that by simp_all
    from mul_add_int [OF this, of amd64] show ?thesis
      by (simp add: PolynomialFunction_Eval_binary64_def slice_at_def add.commute mult.commute)
  qed
  have ys: "collect_points ?f [Fin 0, Fin 2, Fin 4, Fin 6, Fin 8] =
          Inr [NewPoint (Fin 0) (Fin 1), NewPoint (Fin 2) (Fin 5), NewPoint (Fin 4) (Fin 9),
               NewPoint (Fin 6) (Fin 13), NewPoint (Fin 8) (Fin 17)]"
    using f [of 0] f [of 2] f [of 4] f [of 6] f [of 8] by simp
  have upt5: "[0..<5] = [0, 1, 2, 3, 4 :: nat]" by (simp add: upt_rec)
  have xs5: "map (abscissa (Fin 0) (Fin 2)) [0..<5] = [Fin 0, Fin 2, Fin 4, Fin 6, Fin 8]"
    unfolding upt5 using ab [of 0] ab [of 1] ab [of 2] ab [of 3] ab [of 4] by simp
  from evalPoints_samples
    [where impl = amd64 and fromX = "Fin 0" and toX = "Fin 10" and cnt = 5 and n = 5
       and f = ?f and a = 0 and b = 10 and h = "[[Fin 1, Fin 2]]" and cs = 0
       and pf = "PolynomialFunction 0"]
  have "evalPoints amd64 ?f (Fin 0) (Fin 10) 5 =
          Some (collect_points ?f (map (abscissa (Fin 0) (Fin 2)) [0..<5]))"
    using i c cap below top by simp
  then have "evalPoints amd64 ?f (Fin 0) (Fin 10) 5 =
          Some (Inr [NewPoint (Fin 0) (Fin 1), NewPoint (Fin 2) (Fin 5), NewPoint (Fin 4) (Fin 9),
               NewPoint (Fin 6) (Fin 13), NewPoint (Fin 8) (Fin 17)])"
    unfolding xs5 ys .
  moreover have "(1 / 2 ^ 1000 :: real) \<le> 2" by simp
  ultimately show ?thesis using i c cap xs new by simp
qed

text \<open>
  A step that the rounding absorbs: when \<open>x + interval\<close> rounds to \<open>x\<close> and \<open>x\<close> is below
  \<open>toX\<close>, the loop appends a point at \<open>x\<close> for ever.
\<close>

lemma evalPoints_loop_stuck:
  assumes "x < toX" "f x = Inr y" "rnd64 (x + interval) = x"
  shows "evalPoints_loop f toX interval x pts = None"
proof -
  define k where "k = (\<lambda>pts :: Points. ((((f, toX), interval), x), pts))"
  have eq: "(\<forall>pts. g (k pts) = None) = (\<forall>a r. g a = Some r \<longrightarrow> a \<notin> range k)"
    for g :: "_ \<Rightarrow> (error + Points) option"
  proof
    assume "\<forall>pts. g (k pts) = None"
    then show "\<forall>a r. g a = Some r \<longrightarrow> a \<notin> range k" by auto
  next
    assume a: "\<forall>a r. g a = Some r \<longrightarrow> a \<notin> range k"
    show "\<forall>pts. g (k pts) = None"
    proof
      fix pts
      show "g (k pts) = None"
      proof (cases "g (k pts)")
        case (Some r)
        with a have "k pts \<notin> range k" by blast
        then show ?thesis by simp
      qed simp
    qed
  qed
  have "option.admissible (\<lambda>g :: _ \<Rightarrow> (error + Points) option. \<forall>pts. g (k pts) = None)"
    unfolding eq by (rule option_admissible)
  then have adm: "option.admissible
          (\<lambda>g :: _ \<Rightarrow> (error + Points) option.
             \<forall>pts :: Points. curry (curry (curry (curry g))) f toX interval x pts = None)"
    by (simp add: k_def)
  have "\<forall>pts. evalPoints_loop f toX interval x pts = None"
    by (rule evalPoints_loop.fixp_induct [where P = "\<lambda>loop. \<forall>pts. loop f toX interval x pts = None"])
       (use adm assms in simp_all)
  then show ?thesis by simp
qed

text \<open>
  \<open>evalPoints(poly, 2\<^sup>5\<^sup>3, 2\<^sup>5\<^sup>3 + 2, 4)\<close> for the constant polynomial \<open>1\<close>, on amd64: the step
  is \<open>1/2\<close>, the capacity \<open>0\<close>, and \<open>2\<^sup>5\<^sup>3 + 1/2\<close> rounds to \<open>2\<^sup>5\<^sup>3\<close> (the binary64 next to
  \<open>2\<^sup>5\<^sup>3\<close> is \<open>2\<^sup>5\<^sup>3 + 2\<close>), so \<open>x\<close> stays at \<open>fromX\<close>, below \<open>toX\<close>: \<open>evalPoints\<close> never returns.
\<close>

theorem evalPoints_never_returns:
  "Fin (2 ^ 53) < Fin (2 ^ 53 + 2) \<and> (0 :: int) < 4 \<and>
   evalPoints amd64 (PolynomialFunction_Eval_binary64 amd64 [[Fin 1]] (PolynomialFunction 0))
       (Fin (2 ^ 53)) (Fin (2 ^ 53 + 2)) 4 = None"
proof -
  let ?f = "PolynomialFunction_Eval_binary64 amd64 [[Fin 1]] (PolynomialFunction 0)"
  have r: "round64 (of_int n) = Fin (of_int n)" if "\<bar>n\<bar> \<le> 2 ^ 53" for n
    using that by (rule round64_of_int)
  have two: "round64 2 = Fin 2" using r [of 2] by simp
  have four: "round64 4 = Fin 4" using r [of 4] by simp
  have h: "round64 (1 / 2) = Fin (1 / 2)"
    using round64_representable [of 1 "- 1"] by simp
  have i: "evalPoints_interval (Fin (2 ^ 53)) (Fin (2 ^ 53 + 2)) 4 = Fin (1 / 2)"
    using two four h by (simp add: evalPoints_interval_def minus_float64_def float64_of_int_def)
  have cap: "NewPoints amd64 (int_of_float64 amd64 (Fin (1 / 2))) = Inr []"
    by (simp add: NewPoints_def int_of_float64_def amd64_def)
  have "round_half_even ((2 ^ 53 + 1 / 2) / 2 powi (53 - 52)) = 2 ^ 52"
    by (rule round_half_even_near) simp
  from round64_eq [of "2 ^ 53 + 1 / 2" 53, OF _ _ _ _ this]
  have s: "round64 (2 ^ 53 + 1 / 2) = Fin (2 ^ 53)" by simp
  have f: "?f x = Inr (Fin 1)" for x
    by (simp add: PolynomialFunction_Eval_binary64_def slice_at_def)
  have "evalPoints_loop ?f (Fin (2 ^ 53 + 2)) (Fin (1 / 2)) (Fin (2 ^ 53)) [] = None"
    using s by (intro evalPoints_loop_stuck [where y = "Fin 1"]) (simp_all add: f)
  with i cap show ?thesis by (simp add: evalPoints_def)
qed

text \<open>
  The number of points need not be \<open>count\<close>. \<open>evalPoints(poly, 0, 1, 10)\<close> for the constant
  polynomial \<open>1\<close>, on amd64, returns eleven points: the step is the binary64 of \<open>1/10\<close>,
  which is above \<open>1/10\<close>, and the rounded sums are \<open>0.1\<close>, \<open>0.2\<close>, \<open>0.30000000000000004\<close>,
  \<open>0.4\<close>, \<open>0.5\<close>, \<open>0.6\<close>, \<open>0.7\<close>, \<open>0.7999999999999999\<close>, \<open>0.8999999999999999\<close>,
  \<open>0.9999999999999999\<close>, \<open>1.0999999999999999\<close>. The tenth is still below \<open>1\<close>, although ten
  times the step is not, exactly or rounded.
\<close>

lemma evalPoints_loop_step:
  "x < toX \<Longrightarrow> f x = Inr y \<Longrightarrow>
   evalPoints_loop f toX interval x pts =
     evalPoints_loop f toX interval (rnd64 (x + interval)) (pts @ [NewPoint x y])"
  by (subst evalPoints_loop.simps) (simp add: AppendPoint_def)

lemma evalPoints_loop_stop:
  "\<not> x < toX \<Longrightarrow> evalPoints_loop f toX interval x pts = Some (Inr pts)"
  by (subst evalPoints_loop.simps) simp

lemma evalPoints_eleven_points:
  "evalPoints amd64 (PolynomialFunction_Eval_binary64 amd64 [[Fin 1]] (PolynomialFunction 0))
       (Fin 0) (Fin 1) 10 =
     Some (Inr
          [NewPoint (Fin 0) (Fin 1), NewPoint (Fin (3602879701896397 / 2 ^ 55)) (Fin 1),
            NewPoint (Fin (3602879701896397 / 2 ^ 54)) (Fin 1),
            NewPoint (Fin (1351079888211149 / 2 ^ 52)) (Fin 1),
            NewPoint (Fin (3602879701896397 / 2 ^ 53)) (Fin 1), NewPoint (Fin (1 / 2)) (Fin 1),
            NewPoint (Fin (5404319552844595 / 2 ^ 53)) (Fin 1),
            NewPoint (Fin (3152519739159347 / 2 ^ 52)) (Fin 1),
            NewPoint (Fin (7205759403792793 / 2 ^ 53)) (Fin 1),
            NewPoint (Fin (2026619832316723 / 2 ^ 51)) (Fin 1),
            NewPoint (Fin (9007199254740991 / 2 ^ 53)) (Fin 1)]) \<and>
   evalPoints_interval (Fin 0) (Fin 1) 10 = Fin (3602879701896397 / 2 ^ 55) \<and>
   \<not> Fin 0 + Fin 10 * evalPoints_interval (Fin 0) (Fin 1) 10 < Fin 1 \<and>
   \<not> rnd64 (Fin 0 + rnd64 (Fin 10 * evalPoints_interval (Fin 0) (Fin 1) 10)) < Fin 1"
proof -
  let ?f = "PolynomialFunction_Eval_binary64 amd64 [[Fin 1]] (PolynomialFunction 0)"
  let ?s = "Fin (3602879701896397 / 2 ^ 55)"
  let ?x0 = "Fin 0"
  let ?x1 = "Fin (3602879701896397 / 2 ^ 55)"
  let ?x2 = "Fin (3602879701896397 / 2 ^ 54)"
  let ?x3 = "Fin (1351079888211149 / 2 ^ 52)"
  let ?x4 = "Fin (3602879701896397 / 2 ^ 53)"
  let ?x5 = "Fin (1 / 2)"
  let ?x6 = "Fin (5404319552844595 / 2 ^ 53)"
  let ?x7 = "Fin (3152519739159347 / 2 ^ 52)"
  let ?x8 = "Fin (7205759403792793 / 2 ^ 53)"
  let ?x9 = "Fin (2026619832316723 / 2 ^ 51)"
  let ?x10 = "Fin (9007199254740991 / 2 ^ 53)"
  let ?x11 = "Fin (4953959590107545 / 2 ^ 52)"
  have one: "round64 1 = Fin 1" using round64_of_int [of 1] by simp
  have ten: "round64 10 = Fin 10" using round64_of_int [of 10] by simp
  have s: "round64 (1 / 10) = Fin (3602879701896397 / 2 ^ 55)"
  proof -
    have "round_half_even ((1 / 10) / 2 powi (- 4 - 52)) = 7205759403792794"
      by (rule round_half_even_near) simp
    from round64_eq [of "(1 / 10)" "- 4", OF _ _ _ _ this]
    show ?thesis by simp
  qed
  have a0: "round64 (3602879701896397 / 2 ^ 55) = Fin (3602879701896397 / 2 ^ 55)"
  proof -
    have "round_half_even ((3602879701896397 / 2 ^ 55) / 2 powi (- 4 - 52)) = 7205759403792794"
      by (rule round_half_even_near) simp
    from round64_eq [of "(3602879701896397 / 2 ^ 55)" "- 4", OF _ _ _ _ this]
    show ?thesis by simp
  qed
  have a1: "round64 (3602879701896397 / 2 ^ 54) = Fin (3602879701896397 / 2 ^ 54)"
  proof -
    have "round_half_even ((3602879701896397 / 2 ^ 54) / 2 powi (- 3 - 52)) = 7205759403792794"
      by (rule round_half_even_near) simp
    from round64_eq [of "(3602879701896397 / 2 ^ 54)" "- 3", OF _ _ _ _ this]
    show ?thesis by simp
  qed
  have a2: "round64 (10808639105689191 / 2 ^ 55) = Fin (1351079888211149 / 2 ^ 52)"
  proof -
    have "round_half_even ((10808639105689191 / 2 ^ 55) / 2 powi (- 2 - 52)) = 5404319552844596"
      using round_half_even_tie [of "(10808639105689191 / 2 ^ 55) / 2 powi (- 2 - 52)" "5404319552844595"]
      by simp
    from round64_eq [of "(10808639105689191 / 2 ^ 55)" "- 2", OF _ _ _ _ this]
    show ?thesis by simp
  qed
  have a3: "round64 (14411518807585589 / 2 ^ 55) = Fin (3602879701896397 / 2 ^ 53)"
  proof -
    have "round_half_even ((14411518807585589 / 2 ^ 55) / 2 powi (- 2 - 52)) = 7205759403792794"
      using round_half_even_tie [of "(14411518807585589 / 2 ^ 55) / 2 powi (- 2 - 52)" "7205759403792794"]
      by simp
    from round64_eq [of "(14411518807585589 / 2 ^ 55)" "- 2", OF _ _ _ _ this]
    show ?thesis by simp
  qed
  have a4: "round64 (18014398509481985 / 2 ^ 55) = Fin (1 / 2)"
  proof -
    have "round_half_even ((18014398509481985 / 2 ^ 55) / 2 powi (- 1 - 52)) = 4503599627370496"
      by (rule round_half_even_near) simp
    from round64_eq [of "(18014398509481985 / 2 ^ 55)" "- 1", OF _ _ _ _ this]
    show ?thesis by simp
  qed
  have a5: "round64 (21617278211378381 / 2 ^ 55) = Fin (5404319552844595 / 2 ^ 53)"
  proof -
    have "round_half_even ((21617278211378381 / 2 ^ 55) / 2 powi (- 1 - 52)) = 5404319552844595"
      by (rule round_half_even_near) simp
    from round64_eq [of "(21617278211378381 / 2 ^ 55)" "- 1", OF _ _ _ _ this]
    show ?thesis by simp
  qed
  have a6: "round64 (25220157913274777 / 2 ^ 55) = Fin (3152519739159347 / 2 ^ 52)"
  proof -
    have "round_half_even ((25220157913274777 / 2 ^ 55) / 2 powi (- 1 - 52)) = 6305039478318694"
      by (rule round_half_even_near) simp
    from round64_eq [of "(25220157913274777 / 2 ^ 55)" "- 1", OF _ _ _ _ this]
    show ?thesis by simp
  qed
  have a7: "round64 (28823037615171173 / 2 ^ 55) = Fin (7205759403792793 / 2 ^ 53)"
  proof -
    have "round_half_even ((28823037615171173 / 2 ^ 55) / 2 powi (- 1 - 52)) = 7205759403792793"
      by (rule round_half_even_near) simp
    from round64_eq [of "(28823037615171173 / 2 ^ 55)" "- 1", OF _ _ _ _ this]
    show ?thesis by simp
  qed
  have a8: "round64 (32425917317067569 / 2 ^ 55) = Fin (2026619832316723 / 2 ^ 51)"
  proof -
    have "round_half_even ((32425917317067569 / 2 ^ 55) / 2 powi (- 1 - 52)) = 8106479329266892"
      by (rule round_half_even_near) simp
    from round64_eq [of "(32425917317067569 / 2 ^ 55)" "- 1", OF _ _ _ _ this]
    show ?thesis by simp
  qed
  have a9: "round64 (36028797018963965 / 2 ^ 55) = Fin (9007199254740991 / 2 ^ 53)"
  proof -
    have "round_half_even ((36028797018963965 / 2 ^ 55) / 2 powi (- 1 - 52)) = 9007199254740991"
      by (rule round_half_even_near) simp
    from round64_eq [of "(36028797018963965 / 2 ^ 55)" "- 1", OF _ _ _ _ this]
    show ?thesis by simp
  qed
  have a10: "round64 (39631676720860361 / 2 ^ 55) = Fin (4953959590107545 / 2 ^ 52)"
  proof -
    have "round_half_even ((39631676720860361 / 2 ^ 55) / 2 powi (0 - 52)) = 4953959590107545"
      by (rule round_half_even_near) simp
    from round64_eq [of "(39631676720860361 / 2 ^ 55)" "0", OF _ _ _ _ this]
    show ?thesis by simp
  qed
  have c: "round64 (18014398509481985 / 2 ^ 54) = Fin 1"
  proof -
    have "round_half_even ((18014398509481985 / 2 ^ 54) / 2 powi (0 - 52)) = 4503599627370496"
      by (rule round_half_even_near) simp
    from round64_eq [of "(18014398509481985 / 2 ^ 54)" "0", OF _ _ _ _ this]
    show ?thesis by simp
  qed
  have i: "evalPoints_interval (Fin 0) (Fin 1) 10 = ?s"
    using one ten s by (simp add: evalPoints_interval_def minus_float64_def float64_of_int_def)
  have cap: "NewPoints amd64 (int_of_float64 amd64 ?s) = Inr []"
    by (simp add: NewPoints_def int_of_float64_def amd64_def)
  have f: "?f x = Inr (Fin 1)" for x
    by (simp add: PolynomialFunction_Eval_binary64_def slice_at_def)
  have l0: "evalPoints_loop ?f (Fin 1) ?s ?x0
              [] =
            evalPoints_loop ?f (Fin 1) ?s ?x1
              [NewPoint ?x0 (Fin 1)]"
    using evalPoints_loop_step [of ?x0 "Fin 1" ?f "Fin 1" ?s] f a0 by simp
  have l1: "evalPoints_loop ?f (Fin 1) ?s ?x1
              [NewPoint ?x0 (Fin 1)] =
            evalPoints_loop ?f (Fin 1) ?s ?x2
              [NewPoint ?x0 (Fin 1), NewPoint ?x1 (Fin 1)]"
    using evalPoints_loop_step [of ?x1 "Fin 1" ?f "Fin 1" ?s] f a1 by simp
  have l2: "evalPoints_loop ?f (Fin 1) ?s ?x2
              [NewPoint ?x0 (Fin 1), NewPoint ?x1 (Fin 1)] =
            evalPoints_loop ?f (Fin 1) ?s ?x3
              [NewPoint ?x0 (Fin 1), NewPoint ?x1 (Fin 1), NewPoint ?x2 (Fin 1)]"
    using evalPoints_loop_step [of ?x2 "Fin 1" ?f "Fin 1" ?s] f a2 by simp
  have l3: "evalPoints_loop ?f (Fin 1) ?s ?x3
              [NewPoint ?x0 (Fin 1), NewPoint ?x1 (Fin 1), NewPoint ?x2 (Fin 1)] =
            evalPoints_loop ?f (Fin 1) ?s ?x4
              [NewPoint ?x0 (Fin 1), NewPoint ?x1 (Fin 1), NewPoint ?x2 (Fin 1),
               NewPoint ?x3 (Fin 1)]"
    using evalPoints_loop_step [of ?x3 "Fin 1" ?f "Fin 1" ?s] f a3 by simp
  have l4: "evalPoints_loop ?f (Fin 1) ?s ?x4
              [NewPoint ?x0 (Fin 1), NewPoint ?x1 (Fin 1), NewPoint ?x2 (Fin 1),
               NewPoint ?x3 (Fin 1)] =
            evalPoints_loop ?f (Fin 1) ?s ?x5
              [NewPoint ?x0 (Fin 1), NewPoint ?x1 (Fin 1), NewPoint ?x2 (Fin 1),
               NewPoint ?x3 (Fin 1), NewPoint ?x4 (Fin 1)]"
    using evalPoints_loop_step [of ?x4 "Fin 1" ?f "Fin 1" ?s] f a4 by simp
  have l5: "evalPoints_loop ?f (Fin 1) ?s ?x5
              [NewPoint ?x0 (Fin 1), NewPoint ?x1 (Fin 1), NewPoint ?x2 (Fin 1),
               NewPoint ?x3 (Fin 1), NewPoint ?x4 (Fin 1)] =
            evalPoints_loop ?f (Fin 1) ?s ?x6
              [NewPoint ?x0 (Fin 1), NewPoint ?x1 (Fin 1), NewPoint ?x2 (Fin 1),
               NewPoint ?x3 (Fin 1), NewPoint ?x4 (Fin 1), NewPoint ?x5 (Fin 1)]"
    using evalPoints_loop_step [of ?x5 "Fin 1" ?f "Fin 1" ?s] f a5 by simp
  have l6: "evalPoints_loop ?f (Fin 1) ?s ?x6
              [NewPoint ?x0 (Fin 1), NewPoint ?x1 (Fin 1), NewPoint ?x2 (Fin 1),
               NewPoint ?x3 (Fin 1), NewPoint ?x4 (Fin 1), NewPoint ?x5 (Fin 1)] =
            evalPoints_loop ?f (Fin 1) ?s ?x7
              [NewPoint ?x0 (Fin 1), NewPoint ?x1 (Fin 1), NewPoint ?x2 (Fin 1),
               NewPoint ?x3 (Fin 1), NewPoint ?x4 (Fin 1), NewPoint ?x5 (Fin 1),
               NewPoint ?x6 (Fin 1)]"
    using evalPoints_loop_step [of ?x6 "Fin 1" ?f "Fin 1" ?s] f a6 by simp
  have l7: "evalPoints_loop ?f (Fin 1) ?s ?x7
              [NewPoint ?x0 (Fin 1), NewPoint ?x1 (Fin 1), NewPoint ?x2 (Fin 1),
               NewPoint ?x3 (Fin 1), NewPoint ?x4 (Fin 1), NewPoint ?x5 (Fin 1),
               NewPoint ?x6 (Fin 1)] =
            evalPoints_loop ?f (Fin 1) ?s ?x8
              [NewPoint ?x0 (Fin 1), NewPoint ?x1 (Fin 1), NewPoint ?x2 (Fin 1),
               NewPoint ?x3 (Fin 1), NewPoint ?x4 (Fin 1), NewPoint ?x5 (Fin 1),
               NewPoint ?x6 (Fin 1), NewPoint ?x7 (Fin 1)]"
    using evalPoints_loop_step [of ?x7 "Fin 1" ?f "Fin 1" ?s] f a7 by simp
  have l8: "evalPoints_loop ?f (Fin 1) ?s ?x8
              [NewPoint ?x0 (Fin 1), NewPoint ?x1 (Fin 1), NewPoint ?x2 (Fin 1),
               NewPoint ?x3 (Fin 1), NewPoint ?x4 (Fin 1), NewPoint ?x5 (Fin 1),
               NewPoint ?x6 (Fin 1), NewPoint ?x7 (Fin 1)] =
            evalPoints_loop ?f (Fin 1) ?s ?x9
              [NewPoint ?x0 (Fin 1), NewPoint ?x1 (Fin 1), NewPoint ?x2 (Fin 1),
               NewPoint ?x3 (Fin 1), NewPoint ?x4 (Fin 1), NewPoint ?x5 (Fin 1),
               NewPoint ?x6 (Fin 1), NewPoint ?x7 (Fin 1), NewPoint ?x8 (Fin 1)]"
    using evalPoints_loop_step [of ?x8 "Fin 1" ?f "Fin 1" ?s] f a8 by simp
  have l9: "evalPoints_loop ?f (Fin 1) ?s ?x9
              [NewPoint ?x0 (Fin 1), NewPoint ?x1 (Fin 1), NewPoint ?x2 (Fin 1),
               NewPoint ?x3 (Fin 1), NewPoint ?x4 (Fin 1), NewPoint ?x5 (Fin 1),
               NewPoint ?x6 (Fin 1), NewPoint ?x7 (Fin 1), NewPoint ?x8 (Fin 1)] =
            evalPoints_loop ?f (Fin 1) ?s ?x10
              [NewPoint ?x0 (Fin 1), NewPoint ?x1 (Fin 1), NewPoint ?x2 (Fin 1),
               NewPoint ?x3 (Fin 1), NewPoint ?x4 (Fin 1), NewPoint ?x5 (Fin 1),
               NewPoint ?x6 (Fin 1), NewPoint ?x7 (Fin 1), NewPoint ?x8 (Fin 1),
               NewPoint ?x9 (Fin 1)]"
    using evalPoints_loop_step [of ?x9 "Fin 1" ?f "Fin 1" ?s] f a9 by simp
  have l10: "evalPoints_loop ?f (Fin 1) ?s ?x10
              [NewPoint ?x0 (Fin 1), NewPoint ?x1 (Fin 1), NewPoint ?x2 (Fin 1),
               NewPoint ?x3 (Fin 1), NewPoint ?x4 (Fin 1), NewPoint ?x5 (Fin 1),
               NewPoint ?x6 (Fin 1), NewPoint ?x7 (Fin 1), NewPoint ?x8 (Fin 1),
               NewPoint ?x9 (Fin 1)] =
            evalPoints_loop ?f (Fin 1) ?s ?x11
              [NewPoint ?x0 (Fin 1), NewPoint ?x1 (Fin 1), NewPoint ?x2 (Fin 1),
               NewPoint ?x3 (Fin 1), NewPoint ?x4 (Fin 1), NewPoint ?x5 (Fin 1),
               NewPoint ?x6 (Fin 1), NewPoint ?x7 (Fin 1), NewPoint ?x8 (Fin 1),
               NewPoint ?x9 (Fin 1), NewPoint ?x10 (Fin 1)]"
    using evalPoints_loop_step [of ?x10 "Fin 1" ?f "Fin 1" ?s] f a10 by simp
  have stop: "evalPoints_loop ?f (Fin 1) ?s ?x11
              [NewPoint ?x0 (Fin 1), NewPoint ?x1 (Fin 1), NewPoint ?x2 (Fin 1),
               NewPoint ?x3 (Fin 1), NewPoint ?x4 (Fin 1), NewPoint ?x5 (Fin 1),
               NewPoint ?x6 (Fin 1), NewPoint ?x7 (Fin 1), NewPoint ?x8 (Fin 1),
               NewPoint ?x9 (Fin 1), NewPoint ?x10 (Fin 1)] =
            Some (Inr [NewPoint ?x0 (Fin 1), NewPoint ?x1 (Fin 1), NewPoint ?x2 (Fin 1),
                        NewPoint ?x3 (Fin 1), NewPoint ?x4 (Fin 1), NewPoint ?x5 (Fin 1),
                        NewPoint ?x6 (Fin 1), NewPoint ?x7 (Fin 1), NewPoint ?x8 (Fin 1),
                        NewPoint ?x9 (Fin 1), NewPoint ?x10 (Fin 1)])"
    by (rule evalPoints_loop_stop) simp
  have "evalPoints_loop ?f (Fin 1) ?s ?x0 [] =
          Some (Inr [NewPoint ?x0 (Fin 1), NewPoint ?x1 (Fin 1), NewPoint ?x2 (Fin 1),
                 NewPoint ?x3 (Fin 1), NewPoint ?x4 (Fin 1), NewPoint ?x5 (Fin 1),
                 NewPoint ?x6 (Fin 1), NewPoint ?x7 (Fin 1), NewPoint ?x8 (Fin 1),
                 NewPoint ?x9 (Fin 1), NewPoint ?x10 (Fin 1)])"
    by (simp only: l0 l1 l2 l3 l4 l5 l6 l7 l8 l9 l10 stop)
  then have e: "evalPoints amd64 ?f (Fin 0) (Fin 1) 10 =
          Some (Inr [NewPoint ?x0 (Fin 1), NewPoint ?x1 (Fin 1), NewPoint ?x2 (Fin 1),
                 NewPoint ?x3 (Fin 1), NewPoint ?x4 (Fin 1), NewPoint ?x5 (Fin 1),
                 NewPoint ?x6 (Fin 1), NewPoint ?x7 (Fin 1), NewPoint ?x8 (Fin 1),
                 NewPoint ?x9 (Fin 1), NewPoint ?x10 (Fin 1)])"
    using i cap by (simp add: evalPoints_def)
  have n1: "\<not> Fin 0 + Fin 10 * evalPoints_interval (Fin 0) (Fin 1) 10 < Fin 1"
    unfolding i by simp
  have n2: "\<not> rnd64 (Fin 0 + rnd64 (Fin 10 * evalPoints_interval (Fin 0) (Fin 1) 10)) < Fin 1"
    unfolding i using c one by simp
  from e i n1 n2 show ?thesis by (intro conjI)
qed

text \<open>
  The capacity handed to \<^verbatim>\<open>make\<close> is the step, not the count:
  \<open>evalPoints(f, 0, 2\<^sup>6\<^sup>2, 1)\<close> asks for \<open>2\<^sup>6\<^sup>2\<close> pointers and panics on amd64, for every \<open>f\<close>.
\<close>

lemma evalPoints_capacity_panic:
  "evalPoints amd64 f (Fin 0) (Fin (2 ^ 62)) 1 = Some (Inl MakeSliceCapOutOfRange)"
proof -
  have one: "round64 1 = Fin 1" using round64_of_int [of 1] by simp
  have "round64 (real_of_int 1 * 2 powi 62) = Fin (real_of_int 1 * 2 powi 62)"
    by (rule round64_representable) simp_all
  then have big: "round64 (2 ^ 62) = Fin (2 ^ 62)" by simp
  have i: "evalPoints_interval (Fin 0) (Fin (2 ^ 62)) 1 = Fin (2 ^ 62)"
    using one big by (simp add: evalPoints_interval_def minus_float64_def float64_of_int_def)
  have "\<lfloor>(2::real) ^ 62\<rfloor> = 2 ^ 62" by (metis floor_of_int of_int_numeral of_int_power)
  then have "int_of_float64 amd64 (Fin (2 ^ 62)) = 2 ^ 62"
    by (simp add: int_of_float64_def amd64_def)
  with i have "NewPoints amd64 (int_of_float64 amd64 (evalPoints_interval (Fin 0) (Fin (2 ^ 62)) 1))
                 = Inl MakeSliceCapOutOfRange"
    by (simp add: NewPoints_def amd64_def)
  then show ?thesis by (simp add: evalPoints_def)
qed

end
